theory Spec2Isabelle
  imports Main "HOL-Library.Sublist"
begin

section \<open>Python strings\<close>

text \<open>
  A Python \<open>str\<close> is a sequence of Unicode code points; a code point is modelled as a
  natural number. \<open>ustr\<close> reads an ASCII literal of the source as such a sequence.
\<close>

type_synonym ustring = "nat list"

definition ustr :: "string \<Rightarrow> ustring" where
  "ustr s = map of_char s"

text \<open>
  \<open>str.isspace\<close> on one code point, the test behind \<open>str.strip()\<close>: U+0009..U+000D,
  U+001C..U+0020, U+0085, U+00A0, U+1680, U+2000..U+200A, U+2028, U+2029, U+202F, U+205F,
  U+3000.
\<close>

definition isspace :: "nat \<Rightarrow> bool" where
  "isspace c \<longleftrightarrow>
     (9 \<le> c \<and> c \<le> 13) \<or> (28 \<le> c \<and> c \<le> 32) \<or> c = 133 \<or> c = 160 \<or> c = 5760 \<or>
     (8192 \<le> c \<and> c \<le> 8202) \<or> c = 8232 \<or> c = 8233 \<or> c = 8239 \<or> c = 8287 \<or> c = 12288"

text \<open>
  The line boundaries of \<open>str.splitlines()\<close>: LF, VT, FF, CR, FS, GS, RS, NEL, LS, PS.
\<close>

definition is_linebreak :: "nat \<Rightarrow> bool" where
  "is_linebreak c \<longleftrightarrow>
     (10 \<le> c \<and> c \<le> 13) \<or> (28 \<le> c \<and> c \<le> 30) \<or> c = 133 \<or> c = 8232 \<or> c = 8233"

text \<open>\<open>s.strip()\<close>: leading and trailing whitespace removed.\<close>

definition str_strip :: "ustring \<Rightarrow> ustring" where
  "str_strip s = rev (dropWhile isspace (rev (dropWhile isspace s)))"

text \<open>
  \<open>s.lower()\<close>, code point by code point. The Unicode lower-case mapping sends \<open>A\<close>..\<open>Z\<close>
  to \<open>a\<close>..\<open>z\<close>, U+0130 to \<open>i\<close> followed by U+0307 and U+212A (Kelvin sign) to \<open>k\<close>; every
  other code point is mapped to code points outside ASCII. The source only compares the
  result with ASCII prefixes, so the code points outside ASCII are left as they are.
\<close>

definition lower_cp :: "nat \<Rightarrow> ustring" where
  "lower_cp c =
     (if 65 \<le> c \<and> c \<le> 90 then [c + 32]
      else if c = 304 then [105, 775]
      else if c = 8490 then [107]
      else [c])"

definition str_lower :: "ustring \<Rightarrow> ustring" where
  "str_lower s = concat (map lower_cp s)"

text \<open>\<open>s.startswith(p)\<close>.\<close>

definition str_startswith :: "ustring \<Rightarrow> ustring \<Rightarrow> bool" where
  "str_startswith s p \<longleftrightarrow> prefix p s"

text \<open>\<open>sub in s\<close>: \<open>sub\<close> occurs in \<open>s\<close> as a contiguous substring.\<close>

fun str_contains :: "ustring \<Rightarrow> ustring \<Rightarrow> bool" where
  "str_contains sub [] \<longleftrightarrow> sub = []"
| "str_contains sub (c # cs) \<longleftrightarrow> prefix sub (c # cs) \<or> str_contains sub cs"

text \<open>
  \<open>s.replace(old, new)\<close>: the occurrences of \<open>old\<close> are found from left to right, without
  overlap, in one pass over \<open>s\<close>; the text put in place of an occurrence is not searched
  again. (For an empty \<open>old\<close>, \<open>new\<close> is inserted around every code point.)
\<close>

fun str_replace :: "ustring \<Rightarrow> ustring \<Rightarrow> ustring \<Rightarrow> ustring" where
  "str_replace old new [] = (if old = [] then new else [])"
| "str_replace old new (c # cs) =
     (if old = [] then new @ c # str_replace old new cs
      else if prefix old (c # cs) then new @ str_replace old new (drop (length old - 1) cs)
      else c # str_replace old new cs)"

text \<open>
  \<open>s.splitlines()\<close>: \<open>cur\<close> is the part of the current line read so far. A line ends at
  a line boundary (CR LF counts as one); the boundary is not kept, and an empty rest
  after the last boundary is not a line.
\<close>

fun splitlines_from :: "ustring \<Rightarrow> ustring \<Rightarrow> ustring list" where
  "splitlines_from cur [] = (if cur = [] then [] else [cur])"
| "splitlines_from cur (c # cs) =
     (if c = 13 \<and> cs \<noteq> [] \<and> hd cs = 10 then cur # splitlines_from [] (tl cs)
      else if is_linebreak c then cur # splitlines_from [] cs
      else splitlines_from (cur @ [c]) cs)"

definition str_splitlines :: "ustring \<Rightarrow> ustring list" where
  "str_splitlines s = splitlines_from [] s"

text \<open>
  \<open>s.split(sep, 1)\<close> for a separator of one code point: the parts before and after the
  first occurrence, or \<open>s\<close> alone when there is none.
\<close>

definition str_split1 :: "ustring \<Rightarrow> nat \<Rightarrow> ustring list" where
  "str_split1 s sep =
     (if sep \<in> set s then [takeWhile (\<lambda>c. c \<noteq> sep) s, tl (dropWhile (\<lambda>c. c \<noteq> sep) s)]
      else [s])"

text \<open>Exceptions: the class name and the message (\<open>type(e).__name__\<close> and \<open>str(e)\<close>).\<close>

datatype py_exn = PyExn (exn_name: string) (exn_msg: ustring)

text \<open>\<open>xs[i]\<close>, which raises \<open>IndexError\<close> out of range.\<close>

definition list_index :: "'a list \<Rightarrow> nat \<Rightarrow> py_exn + 'a" where
  "list_index xs i =
     (if i < length xs then Inr (xs ! i)
      else Inl (PyExn ''IndexError'' (ustr ''list index out of range'')))"

section \<open>The output parser\<close>

text \<open>The variables \<open>title\<close>, \<open>story\<close> and \<open>mode\<close> of the loop of \<open>parse_gemini_output\<close>; \<open>mode\<close> is \<open>None\<close> or \<open>"story"\<close>.\<close>

record parse_state =
  st_title :: ustring
  st_story :: ustring
  st_mode :: "string option"

definition is_title_line :: "ustring \<Rightarrow> bool" where
  "is_title_line ln \<longleftrightarrow> str_startswith (str_lower (str_strip ln)) (ustr ''title:'')"

definition is_story_line :: "ustring \<Rightarrow> bool" where
  "is_story_line ln \<longleftrightarrow> str_startswith (str_lower (str_strip ln)) (ustr ''story:'')"

text \<open>One iteration of the loop over the lines.\<close>

definition parse_line :: "parse_state \<Rightarrow> ustring \<Rightarrow> py_exn + parse_state" where
  "parse_line st ln =
     (if is_title_line ln then
        (case list_index (str_split1 ln 58) 1 of
           Inl e \<Rightarrow> Inl e
         | Inr rest \<Rightarrow> Inr (st\<lparr>st_title := str_strip rest, st_mode := None\<rparr>))
      else if is_story_line ln then Inr (st\<lparr>st_mode := Some ''story''\<rparr>)
      else if st_mode st = Some ''story'' then Inr (st\<lparr>st_story := st_story st @ ln @ [10]\<rparr>)
      else Inr st)"

fun parse_lines :: "parse_state \<Rightarrow> ustring list \<Rightarrow> py_exn + parse_state" where
  "parse_lines st [] = Inr st"
| "parse_lines st (ln # lns) =
     (case parse_line st ln of Inl e \<Rightarrow> Inl e | Inr st' \<Rightarrow> parse_lines st' lns)"

definition parse_gemini_output :: "ustring \<Rightarrow> py_exn + (ustring \<times> ustring)" where
  "parse_gemini_output text =
     (case parse_lines \<lparr>st_title = [], st_story = [], st_mode = None\<rparr> (str_splitlines text) of
        Inl e \<Rightarrow> Inl e
      | Inr st \<Rightarrow> Inr (st_title st, str_strip (st_story st)))"

section \<open>The marker sanitizer\<close>

definition TWIST1 :: ustring where "TWIST1 = ustr ''[TWIST1]''"
definition TWIST2 :: ustring where "TWIST2 = ustr ''[TWIST2]''"
definition TWIST3 :: ustring where "TWIST3 = ustr ''[TWIST3]''"
definition TWIST4 :: ustring where "TWIST4 = ustr ''[TWIST4]''"

definition strip_markers :: "ustring \<Rightarrow> ustring" where
  "strip_markers s =
     str_strip
       (str_replace TWIST4 []
         (str_replace TWIST3 []
           (str_replace TWIST2 []
             (str_replace TWIST1 [] s))))"

definition has_marker :: "ustring \<Rightarrow> bool" where
  "has_marker s \<longleftrightarrow>
     str_contains TWIST1 s \<or> str_contains TWIST2 s \<or> str_contains TWIST3 s \<or> str_contains TWIST4 s"

section \<open>The model client\<close>

text \<open>
  A prompt is kept as the template chosen and the fields put into it: the rendered text
  goes to the external model only. \<open>StoryPrompt inspiration tone\<close> stands for
  \<open>story_prompt(inspiration, tone)\<close> and \<open>RevisionPrompt original_story feedback\<close> for
  \<open>revision_prompt(original_story, feedback)\<close>. The model is any function of such a prompt;
  a function of the rendered text is one of them.
\<close>

datatype prompt = StoryPrompt ustring ustring | RevisionPrompt ustring ustring

text \<open>
  What \<open>model.generate_content(prompt)\<close> followed by \<open>resp.text\<close> does: it raises an
  exception whose \<open>str\<close> is given, or yields the text, which may be \<open>None\<close>.
\<close>

datatype gen_result = Raises ustring | Replies "ustring option"

type_synonym gemini = "prompt \<Rightarrow> gen_result"

definition api_exn :: "string \<Rightarrow> py_exn" where
  "api_exn msg = PyExn ''Exception'' (ustr msg)"

definition call_gemini :: "gemini \<Rightarrow> prompt \<Rightarrow> py_exn + ustring" where
  "call_gemini model p =
     (case model p of
        Replies text \<Rightarrow> Inr (str_strip (case text of None \<Rightarrow> [] | Some t \<Rightarrow> t))
      | Raises error_msg \<Rightarrow>
          if str_contains (ustr ''RATE_LIMIT_EXCEEDED'') error_msg \<or> str_contains (ustr ''429'') error_msg
          then Inl (api_exn
            ''API quota exceeded. Please check your Google AI Studio quota limits or try again later.'')
          else if str_contains (ustr ''PERMISSION_DENIED'') error_msg \<or> str_contains (ustr ''403'') error_msg
          then Inl (api_exn
            ''API key doesn't have permission. Please check your API key in Google AI Studio.'')
          else if str_contains (ustr ''INVALID_ARGUMENT'') error_msg \<or> str_contains (ustr ''400'') error_msg
          then Inl (api_exn ''Invalid API request. Please check your API key configuration.'')
          else Inl (PyExn ''Exception'' (ustr ''Gemini API error: '' @ error_msg)))"

section \<open>The request handlers\<close>

record GenerateRequest =
  inspiration :: ustring
  tone :: ustring

record ReviseRequest =
  feedback :: ustring
  original_story :: ustring

text \<open>An HTTP response: the status code and the fields of the JSON object, in order.\<close>

record response =
  status_code :: nat
  content :: "(string \<times> ustring) list"

text \<open>The \<open>except Exception as e\<close> branch of both handlers.\<close>

definition error_response :: "py_exn \<Rightarrow> response" where
  "error_response e =
     \<lparr>status_code = 500, content = [(''error'', ustr (exn_name e) @ ustr '': '' @ exn_msg e)]\<rparr>"

definition generate :: "gemini \<Rightarrow> GenerateRequest \<Rightarrow> response" where
  "generate model req =
     (case call_gemini model (StoryPrompt (inspiration req) (tone req)) of
        Inl e \<Rightarrow> error_response e
      | Inr out \<Rightarrow>
          if out = [] then
            \<lparr>status_code = 500, content = [(''error'', ustr ''Empty response from model'')]\<rparr>
          else
            (case parse_gemini_output out of
               Inl e \<Rightarrow> error_response e
             | Inr (title, story_raw) \<Rightarrow>
                 let story_raw = (if story_raw = [] then out else story_raw);
                     story_clean = strip_markers story_raw
                 in \<lparr>status_code = 200,
                     content = [(''title'', title), (''story_raw'', story_raw),
                                (''story_clean'', story_clean)]\<rparr>))"

definition revise :: "gemini \<Rightarrow> ReviseRequest \<Rightarrow> response" where
  "revise model req =
     (case call_gemini model (RevisionPrompt (original_story req) (feedback req)) of
        Inl e \<Rightarrow> error_response e
      | Inr out \<Rightarrow>
          if out = [] then
            \<lparr>status_code = 500, content = [(''error'', ustr ''Empty response from model'')]\<rparr>
          else
            (case parse_gemini_output out of
               Inl e \<Rightarrow> error_response e
             | Inr (title, story_raw) \<Rightarrow>
                 let story_raw = (if story_raw = [] then out else story_raw);
                     story_clean = strip_markers story_raw
                 in \<lparr>status_code = 200,
                     content = [(''title'', title), (''story_raw'', story_raw),
                                (''story_clean'', story_clean)]\<rparr>))"

section \<open>The two shapes of a response\<close>

text \<open>
  A success payload is a 200 response with exactly the fields \<open>title\<close>, \<open>story_raw\<close> and
  \<open>story_clean\<close>; an error payload is a 500 response with the field \<open>error\<close> alone.
\<close>

definition success_shape :: "response \<Rightarrow> bool" where
  "success_shape r \<longleftrightarrow>
     status_code r = 200 \<and> map fst (content r) = [''title'', ''story_raw'', ''story_clean'']"

definition error_shape :: "response \<Rightarrow> bool" where
  "error_shape r \<longleftrightarrow> status_code r = 500 \<and> map fst (content r) = [''error'']"

section \<open>Marker tokens\<close>

text \<open>A token: an opening bracket followed by code points that are not one.\<close>

definition token :: "ustring \<Rightarrow> bool" where
  "token m \<longleftrightarrow> m \<noteq> [] \<and> hd m = 91 \<and> 91 \<notin> set (tl m)"

text \<open>
  The fixed vocabulary of marker tokens, the nonempty proper prefixes of a token, and the
  texts that hold a split marker: somewhere in \<open>s\<close> a nonempty proper prefix of a marker
  token is directly followed by a marker token, as in \<open>[TWIST[TWIST1]\<close>.
\<close>

definition MARKERS :: "ustring list" where
  "MARKERS = [TWIST1, TWIST2, TWIST3, TWIST4]"

definition proper_prefixes :: "ustring \<Rightarrow> ustring list" where
  "proper_prefixes m = filter (\<lambda>p. p \<noteq> [] \<and> p \<noteq> m) (prefixes m)"

definition split_marker :: "ustring \<Rightarrow> bool" where
  "split_marker s \<longleftrightarrow>
     (\<exists>m\<in>set MARKERS. \<exists>p\<in>set (proper_prefixes m). \<exists>t\<in>set MARKERS. str_contains (p @ t) s)"

section \<open>Lines up to blank space\<close>

text \<open>
  The lines of a text as the two line tests of the parser see them: each line trimmed,
  and the lines that are empty once trimmed left out.
\<close>

definition nonblank :: "ustring list \<Rightarrow> ustring list" where
  "nonblank lns = filter (\<lambda>l. l \<noteq> []) (map str_strip lns)"

section \<open>The parser never raises\<close>

lemma set_str_strip: "set (str_strip s) \<subseteq> set s"
proof -
  have "set (dropWhile isspace (rev (dropWhile isspace s))) \<subseteq> set (rev (dropWhile isspace s))"
    by (rule set_dropWhileD[THEN subsetI]) 
  also have "\<dots> \<subseteq> set s" using set_dropWhileD[of _ isspace s] by auto
  finally show ?thesis by (simp add: str_strip_def)
qed

lemma lower_cp_colon: "58 \<in> set (lower_cp c) \<Longrightarrow> c = 58"
  by (auto simp: lower_cp_def split: if_splits)

lemma str_lower_colon: "58 \<in> set (str_lower s) \<Longrightarrow> 58 \<in> set s"
  by (auto simp: str_lower_def dest: lower_cp_colon)

lemma title_prefix_colon: "prefix (ustr ''title:'') s \<Longrightarrow> 58 \<in> set s"
  by (auto simp: prefix_def ustr_def)

lemma is_title_line_colon: "is_title_line ln \<Longrightarrow> 58 \<in> set ln"
  unfolding is_title_line_def str_startswith_def
  using set_str_strip[of ln] by (blast dest: title_prefix_colon str_lower_colon)

lemma split1_index:
  "58 \<in> set ln \<Longrightarrow>
     list_index (str_split1 ln 58) (Suc 0) = Inr (tl (dropWhile (\<lambda>c. c \<noteq> 58) ln))"
  by (simp add: str_split1_def list_index_def)

lemma parse_line_title:
  "is_title_line ln \<Longrightarrow>
     parse_line st ln =
       Inr (st\<lparr>st_title := str_strip (tl (dropWhile (\<lambda>c. c \<noteq> 58) ln)), st_mode := None\<rparr>)"
  by (simp add: parse_line_def split1_index is_title_line_colon)

lemma parse_line_total: "\<exists>st'. parse_line st ln = Inr st'"
proof (cases "is_title_line ln")
  case True
  then show ?thesis by (simp add: parse_line_title)
next
  case False
  then show ?thesis by (simp add: parse_line_def)
qed

lemma parse_lines_total: "\<exists>st'. parse_lines st lns = Inr st'"
proof (induction lns arbitrary: st)
  case Nil
  show ?case by simp
next
  case (Cons ln lns)
  obtain st1 where "parse_line st ln = Inr st1" using parse_line_total by blast
  with Cons.IH[of st1] show ?case by simp
qed

lemma parse_output_Inr: "\<exists>t s. parse_gemini_output text = Inr (t, s)"
proof -
  obtain st where "parse_lines \<lparr>st_title = [], st_story = [], st_mode = None\<rparr> (str_splitlines text) = Inr st"
    using parse_lines_total by blast
  then show ?thesis by (simp add: parse_gemini_output_def)
qed

text \<open>
  Claim C5. The output parser is total: on every input text \<open>parse_gemini_output\<close> returns a
  pair (title, story) and raises nothing. In particular the index 1 into the result of
  \<open>ln.split(":", 1)\<close> in the title branch is in bounds: a line whose trimmed lower-case form
  starts with \<open>title:\<close> contains a colon, so the split has two parts.
\<close>

theorem parse_total:
  "(\<exists>t s. parse_gemini_output text = Inr (t, s)) \<and>
   (is_title_line ln \<longrightarrow> 1 < length (str_split1 ln 58) \<and>
      list_index (str_split1 ln 58) 1 = Inr (tl (dropWhile (\<lambda>c. c \<noteq> 58) ln)))"
proof -
  have "is_title_line ln \<longrightarrow> 1 < length (str_split1 ln 58) \<and>
      list_index (str_split1 ln 58) 1 = Inr (tl (dropWhile (\<lambda>c. c \<noteq> 58) ln))"
    using is_title_line_colon[of ln] by (auto simp: list_index_def str_split1_def)
  with parse_output_Inr[of "text"] show ?thesis by blast
qed

theorem parse_total_witness:
  "is_title_line (ustr ''  TiTLE: A'') \<and>
   list_index (str_split1 (ustr ''  TiTLE: A'') 58) 1 = Inr (ustr '' A'') \<and>
   (\<exists>t s. parse_gemini_output (ustr ''title'') = Inr (t, s))"
  using parse_total[of "ustr ''title''" "ustr ''  TiTLE: A''"]
  by (simp add: is_title_line_def str_startswith_def str_lower_def lower_cp_def str_strip_def isspace_def ustr_def)

section \<open>The handlers, case by case\<close>

lemma generate_failed_call:
  "call_gemini model (StoryPrompt (inspiration greq) (tone greq)) = Inl e \<Longrightarrow>
     generate model greq = error_response e"
  by (simp add: generate_def)

lemma generate_empty:
  "call_gemini model (StoryPrompt (inspiration greq) (tone greq)) = Inr [] \<Longrightarrow>
     generate model greq =
       \<lparr>status_code = 500, content = [(''error'', ustr ''Empty response from model'')]\<rparr>"
  by (simp add: generate_def)

lemma generate_success:
  "call_gemini model (StoryPrompt (inspiration greq) (tone greq)) = Inr out \<Longrightarrow> out \<noteq> [] \<Longrightarrow>
   parse_gemini_output out = Inr (t, s) \<Longrightarrow>
     generate model greq =
       \<lparr>status_code = 200,
        content = [(''title'', t), (''story_raw'', if s = [] then out else s),
                   (''story_clean'', strip_markers (if s = [] then out else s))]\<rparr>"
  by (simp add: generate_def Let_def)

lemma revise_failed_call:
  "call_gemini model (RevisionPrompt (original_story rreq) (feedback rreq)) = Inl e \<Longrightarrow>
     revise model rreq = error_response e"
  by (simp add: revise_def)

lemma revise_empty:
  "call_gemini model (RevisionPrompt (original_story rreq) (feedback rreq)) = Inr [] \<Longrightarrow>
     revise model rreq =
       \<lparr>status_code = 500, content = [(''error'', ustr ''Empty response from model'')]\<rparr>"
  by (simp add: revise_def)

lemma revise_success:
  "call_gemini model (RevisionPrompt (original_story rreq) (feedback rreq)) = Inr out \<Longrightarrow> out \<noteq> [] \<Longrightarrow>
   parse_gemini_output out = Inr (t, s) \<Longrightarrow>
     revise model rreq =
       \<lparr>status_code = 200,
        content = [(''title'', t), (''story_raw'', if s = [] then out else s),
                   (''story_clean'', strip_markers (if s = [] then out else s))]\<rparr>"
  by (simp add: revise_def Let_def)

lemma generate_shape:
  "(if \<exists>out. call_gemini model (StoryPrompt (inspiration greq) (tone greq)) = Inr out \<and> out \<noteq> []
    then success_shape (generate model greq) else error_shape (generate model greq))"
proof (cases "call_gemini model (StoryPrompt (inspiration greq) (tone greq))")
  case (Inl e)
  then show ?thesis by (simp add: generate_failed_call error_response_def error_shape_def)
next
  case (Inr out)
  show ?thesis
  proof (cases "out = []")
    case True
    with Inr show ?thesis by (simp add: generate_empty error_shape_def)
  next
    case False
    obtain t s where "parse_gemini_output out = Inr (t, s)" using parse_output_Inr by blast
    with Inr False show ?thesis by (simp add: generate_success success_shape_def)
  qed
qed

lemma revise_shape:
  "(if \<exists>out. call_gemini model (RevisionPrompt (original_story rreq) (feedback rreq)) = Inr out \<and> out \<noteq> []
    then success_shape (revise model rreq) else error_shape (revise model rreq))"
proof (cases "call_gemini model (RevisionPrompt (original_story rreq) (feedback rreq))")
  case (Inl e)
  then show ?thesis by (simp add: revise_failed_call error_response_def error_shape_def)
next
  case (Inr out)
  show ?thesis
  proof (cases "out = []")
    case True
    with Inr show ?thesis by (simp add: revise_empty error_shape_def)
  next
    case False
    obtain t s where "parse_gemini_output out = Inr (t, s)" using parse_output_Inr by blast
    with Inr False show ?thesis by (simp add: revise_success success_shape_def)
  qed
qed

text \<open>
  Claim C6. When the model call succeeds but its text is empty, \<open>None\<close> or only whitespace
  (so empty once trimmed), Generate and Revise both answer with status 500 and the body
  \<open>{"error": "Empty response from model"}\<close>, which has no title, story_raw or story_clean
  field.
\<close>

theorem empty_reply:
  assumes "str_strip (case text of None \<Rightarrow> [] | Some t \<Rightarrow> t) = []"
  shows "(model (StoryPrompt (inspiration greq) (tone greq)) = Replies text \<longrightarrow>
           generate model greq =
             \<lparr>status_code = 500, content = [(''error'', ustr ''Empty response from model'')]\<rparr>) \<and>
         (model (RevisionPrompt (original_story rreq) (feedback rreq)) = Replies text \<longrightarrow>
           revise model rreq =
             \<lparr>status_code = 500, content = [(''error'', ustr ''Empty response from model'')]\<rparr>)"
  using assms by (simp add: generate_def revise_def call_gemini_def)

theorem empty_reply_witness:
  "str_strip (case Some [32, 10, 9] of None \<Rightarrow> [] | Some t \<Rightarrow> t) = [] \<and>
   generate (\<lambda>p. Replies (Some [32, 10, 9])) \<lparr>inspiration = ustr ''a fox'', tone = ustr ''neutral''\<rparr> =
     \<lparr>status_code = 500, content = [(''error'', ustr ''Empty response from model'')]\<rparr> \<and>
   revise (\<lambda>p. Replies (Some [32, 10, 9])) \<lparr>feedback = ustr ''more'', original_story = ustr ''old''\<rparr> =
     \<lparr>status_code = 500, content = [(''error'', ustr ''Empty response from model'')]\<rparr>"
  using empty_reply[of "Some [32, 10, 9]" "\<lambda>p. Replies (Some [32, 10, 9])"
          "\<lparr>inspiration = ustr ''a fox'', tone = ustr ''neutral''\<rparr>"
          "\<lparr>feedback = ustr ''more'', original_story = ustr ''old''\<rparr>"]
  by (simp add: str_strip_def isspace_def)

lemma error_response_Exception:
  "error_response (PyExn ''Exception'' msg) =
     \<lparr>status_code = 500, content = [(''error'', ustr ''Exception: '' @ msg)]\<rparr>"
  by (simp add: error_response_def ustr_def)

lemma call_gemini_Raises:
  "model p = Raises err \<Longrightarrow>
     call_gemini model p =
       Inl (PyExn ''Exception''
         (if str_contains (ustr ''RATE_LIMIT_EXCEEDED'') err \<or> str_contains (ustr ''429'') err
          then ustr ''API quota exceeded. Please check your Google AI Studio quota limits or try again later.''
          else if str_contains (ustr ''PERMISSION_DENIED'') err \<or> str_contains (ustr ''403'') err
          then ustr ''API key doesn't have permission. Please check your API key in Google AI Studio.''
          else if str_contains (ustr ''INVALID_ARGUMENT'') err \<or> str_contains (ustr ''400'') err
          then ustr ''Invalid API request. Please check your API key configuration.''
          else ustr ''Gemini API error: '' @ err))"
  by (simp add: call_gemini_def api_exn_def)

lemma call_gemini_Replies:
  "model p = Replies text \<Longrightarrow>
     call_gemini model p = Inr (str_strip (case text of None \<Rightarrow> [] | Some t \<Rightarrow> t))"
  by (simp add: call_gemini_def)

lemma generate_ok:
  assumes "call_gemini model (StoryPrompt (inspiration greq) (tone greq)) = Inr out" "out \<noteq> []"
  shows "status_code (generate model greq) = 200"
proof -
  obtain t s where "parse_gemini_output out = Inr (t, s)" using parse_output_Inr by blast
  from generate_success[OF assms this] show ?thesis by simp
qed

lemma revise_ok:
  assumes "call_gemini model (RevisionPrompt (original_story rreq) (feedback rreq)) = Inr out" "out \<noteq> []"
  shows "status_code (revise model rreq) = 200"
proof -
  obtain t s where "parse_gemini_output out = Inr (t, s)" using parse_output_Inr by blast
  from revise_success[OF assms this] show ?thesis by simp
qed

text \<open>
  Claim C7, as amended. Every failure of Generate or Revise is answered with status 500 and
  a body that has the field \<open>error\<close> alone, and there are two kinds of failure. When the
  model call raises, the error string is \<open>Exception: \<close> followed by the message of
  \<open>call_gemini\<close>: the prefix is the Python class name \<open>Exception\<close> whatever the kind, and the
  kind shows in the message only, which is the quota message when the original message
  holds \<open>RATE_LIMIT_EXCEEDED\<close> or \<open>429\<close>, else the permission message for
  \<open>PERMISSION_DENIED\<close> or \<open>403\<close>, else the invalid-request message for \<open>INVALID_ARGUMENT\<close>
  or \<open>400\<close>, else \<open>Gemini API error: \<close> with the original message. When the reply is blank,
  the error string is \<open>Empty response from model\<close>, with no kind before it. Every other
  reply is answered with status 200.
\<close>

theorem failure_payload:
  "let message = (\<lambda>err.
         if str_contains (ustr ''RATE_LIMIT_EXCEEDED'') err \<or> str_contains (ustr ''429'') err
         then ustr ''API quota exceeded. Please check your Google AI Studio quota limits or try again later.''
         else if str_contains (ustr ''PERMISSION_DENIED'') err \<or> str_contains (ustr ''403'') err
         then ustr ''API key doesn't have permission. Please check your API key in Google AI Studio.''
         else if str_contains (ustr ''INVALID_ARGUMENT'') err \<or> str_contains (ustr ''400'') err
         then ustr ''Invalid API request. Please check your API key configuration.''
         else ustr ''Gemini API error: '' @ err);
       failed_call = (\<lambda>err.
         \<lparr>status_code = 500, content = [(''error'', ustr ''Exception: '' @ message err)]\<rparr>);
       empty_reply = \<lparr>status_code = 500, content = [(''error'', ustr ''Empty response from model'')]\<rparr>;
       blank = (\<lambda>text. str_strip (case text of None \<Rightarrow> [] | Some t \<Rightarrow> t) = [])
   in (model (StoryPrompt (inspiration greq) (tone greq)) = Raises err \<longrightarrow>
         generate model greq = failed_call err) \<and>
      (model (StoryPrompt (inspiration greq) (tone greq)) = Replies text \<and> blank text \<longrightarrow>
         generate model greq = empty_reply) \<and>
      (model (StoryPrompt (inspiration greq) (tone greq)) = Replies text \<and> \<not> blank text \<longrightarrow>
         status_code (generate model greq) = 200) \<and>
      (model (RevisionPrompt (original_story rreq) (feedback rreq)) = Raises err \<longrightarrow>
         revise model rreq = failed_call err) \<and>
      (model (RevisionPrompt (original_story rreq) (feedback rreq)) = Replies text \<and> blank text \<longrightarrow>
         revise model rreq = empty_reply) \<and>
      (model (RevisionPrompt (original_story rreq) (feedback rreq)) = Replies text \<and> \<not> blank text \<longrightarrow>
         status_code (revise model rreq) = 200)"
  unfolding Let_def
proof (intro conjI impI)
  assume "model (StoryPrompt (inspiration greq) (tone greq)) = Raises err"
  from generate_failed_call[OF call_gemini_Raises[of model "StoryPrompt (inspiration greq) (tone greq)" err, OF this]]
  show "generate model greq =
          \<lparr>status_code = 500, content = [(''error'', ustr ''Exception: '' @
             (if str_contains (ustr ''RATE_LIMIT_EXCEEDED'') err \<or> str_contains (ustr ''429'') err
              then ustr ''API quota exceeded. Please check your Google AI Studio quota limits or try again later.''
              else if str_contains (ustr ''PERMISSION_DENIED'') err \<or> str_contains (ustr ''403'') err
              then ustr ''API key doesn't have permission. Please check your API key in Google AI Studio.''
              else if str_contains (ustr ''INVALID_ARGUMENT'') err \<or> str_contains (ustr ''400'') err
              then ustr ''Invalid API request. Please check your API key configuration.''
              else ustr ''Gemini API error: '' @ err))]\<rparr>"
    by (simp only: error_response_Exception)
next
  assume "model (RevisionPrompt (original_story rreq) (feedback rreq)) = Raises err"
  from revise_failed_call[OF call_gemini_Raises[of model "RevisionPrompt (original_story rreq) (feedback rreq)" err, OF this]]
  show "revise model rreq =
          \<lparr>status_code = 500, content = [(''error'', ustr ''Exception: '' @
             (if str_contains (ustr ''RATE_LIMIT_EXCEEDED'') err \<or> str_contains (ustr ''429'') err
              then ustr ''API quota exceeded. Please check your Google AI Studio quota limits or try again later.''
              else if str_contains (ustr ''PERMISSION_DENIED'') err \<or> str_contains (ustr ''403'') err
              then ustr ''API key doesn't have permission. Please check your API key in Google AI Studio.''
              else if str_contains (ustr ''INVALID_ARGUMENT'') err \<or> str_contains (ustr ''400'') err
              then ustr ''Invalid API request. Please check your API key configuration.''
              else ustr ''Gemini API error: '' @ err))]\<rparr>"
    by (simp only: error_response_Exception)
next
  assume "model (StoryPrompt (inspiration greq) (tone greq)) = Replies text \<and>
          str_strip (case text of None \<Rightarrow> [] | Some t \<Rightarrow> t) = []"
  then show "generate model greq =
          \<lparr>status_code = 500, content = [(''error'', ustr ''Empty response from model'')]\<rparr>"
    using call_gemini_Replies[of model "StoryPrompt (inspiration greq) (tone greq)" "text"]
    by (simp add: generate_empty)
next
  assume "model (RevisionPrompt (original_story rreq) (feedback rreq)) = Replies text \<and>
          str_strip (case text of None \<Rightarrow> [] | Some t \<Rightarrow> t) = []"
  then show "revise model rreq =
          \<lparr>status_code = 500, content = [(''error'', ustr ''Empty response from model'')]\<rparr>"
    using call_gemini_Replies[of model "RevisionPrompt (original_story rreq) (feedback rreq)" "text"]
    by (simp add: revise_empty)
next
  assume "model (StoryPrompt (inspiration greq) (tone greq)) = Replies text \<and>
          str_strip (case text of None \<Rightarrow> [] | Some t \<Rightarrow> t) \<noteq> []"
  then show "status_code (generate model greq) = 200"
    using call_gemini_Replies[of model "StoryPrompt (inspiration greq) (tone greq)" "text"]
      generate_ok[of model greq] by simp
next
  assume "model (RevisionPrompt (original_story rreq) (feedback rreq)) = Replies text \<and>
          str_strip (case text of None \<Rightarrow> [] | Some t \<Rightarrow> t) \<noteq> []"
  then show "status_code (revise model rreq) = 200"
    using call_gemini_Replies[of model "RevisionPrompt (original_story rreq) (feedback rreq)" "text"]
      revise_ok[of model rreq] by simp
qed

text \<open>
  The claim as stated asks for an error string of the form kind, colon, message, with the
  kind taken from the taxonomy. The string for a blank reply holds no colon at all, and a
  rate-limit failure is labelled \<open>Exception\<close>.
\<close>

theorem failure_payload_counterexample:
  "generate (\<lambda>p. Replies (Some [])) \<lparr>inspiration = ustr ''a fox'', tone = ustr ''neutral''\<rparr> =
     \<lparr>status_code = 500, content = [(''error'', ustr ''Empty response from model'')]\<rparr> \<and>
   \<not> str_contains (ustr '': '') (ustr ''Empty response from model'') \<and>
   generate (\<lambda>p. Raises (ustr ''429 Too Many Requests'')) \<lparr>inspiration = ustr ''a fox'', tone = ustr ''neutral''\<rparr> =
     \<lparr>status_code = 500, content = [(''error'',
        ustr ''Exception: API quota exceeded. Please check your Google AI Studio quota limits or try again later.'')]\<rparr>"
  by (simp add: generate_def call_gemini_def api_exn_def error_response_def ustr_def str_strip_def)

theorem failure_payload_witness:
  "generate (\<lambda>p. Raises (ustr ''403 PERMISSION_DENIED''))
       \<lparr>inspiration = ustr ''a fox'', tone = ustr ''neutral''\<rparr> =
     \<lparr>status_code = 500, content = [(''error'',
        ustr ''Exception: API key doesn't have permission. Please check your API key in Google AI Studio.'')]\<rparr> \<and>
   revise (\<lambda>p. Raises (ustr ''403 PERMISSION_DENIED''))
       \<lparr>feedback = ustr ''more'', original_story = ustr ''old''\<rparr> =
     \<lparr>status_code = 500, content = [(''error'',
        ustr ''Exception: API key doesn't have permission. Please check your API key in Google AI Studio.'')]\<rparr>"
  using failure_payload[of "\<lambda>p. Raises (ustr ''403 PERMISSION_DENIED'')"
     "\<lparr>inspiration = ustr ''a fox'', tone = ustr ''neutral''\<rparr>" "ustr ''403 PERMISSION_DENIED''" None
     "\<lparr>feedback = ustr ''more'', original_story = ustr ''old''\<rparr>"]
  by (simp add: Let_def ustr_def)
text \<open>
  Claim C8. Every response of Generate or Revise is either a success payload with the three
  fields title, story_raw and story_clean, or an error payload with the field error alone.
  When the model call fails or its text is empty, the response is the error payload: there
  is no 200 response with part of a story.
\<close>

theorem no_partial_result:
  "(success_shape (generate model greq) \<or> error_shape (generate model greq)) \<and>
   (success_shape (revise model rreq) \<or> error_shape (revise model rreq)) \<and>
   ((\<exists>e. call_gemini model (StoryPrompt (inspiration greq) (tone greq)) = Inl e) \<or>
    call_gemini model (StoryPrompt (inspiration greq) (tone greq)) = Inr []
      \<longrightarrow> error_shape (generate model greq)) \<and>
   ((\<exists>e. call_gemini model (RevisionPrompt (original_story rreq) (feedback rreq)) = Inl e) \<or>
    call_gemini model (RevisionPrompt (original_story rreq) (feedback rreq)) = Inr []
      \<longrightarrow> error_shape (revise model rreq))"
  using generate_shape[of model greq] revise_shape[of model rreq]
  by (auto split: if_splits)

theorem no_partial_result_witness:
  "call_gemini (\<lambda>p. Raises (ustr ''429 Too Many Requests'')) (StoryPrompt (ustr ''a fox'') (ustr ''neutral''))
     = Inl (PyExn ''Exception''
         (ustr ''API quota exceeded. Please check your Google AI Studio quota limits or try again later.'')) \<and>
   error_shape (generate (\<lambda>p. Raises (ustr ''429 Too Many Requests''))
     \<lparr>inspiration = ustr ''a fox'', tone = ustr ''neutral''\<rparr>) \<and>
   call_gemini (\<lambda>p. Replies (Some (ustr '' ''))) (RevisionPrompt (ustr ''old'') (ustr ''more'')) = Inr [] \<and>
   error_shape (revise (\<lambda>p. Replies (Some (ustr '' '')))
     \<lparr>feedback = ustr ''more'', original_story = ustr ''old''\<rparr>)"
  using no_partial_result[of "\<lambda>p. Raises (ustr ''429 Too Many Requests'')"
          "\<lparr>inspiration = ustr ''a fox'', tone = ustr ''neutral''\<rparr>" "\<lparr>feedback = ustr ''more'', original_story = ustr ''old''\<rparr>"]
        no_partial_result[of "\<lambda>p. Replies (Some (ustr '' ''))"
          "\<lparr>inspiration = ustr ''a fox'', tone = ustr ''neutral''\<rparr>" "\<lparr>feedback = ustr ''more'', original_story = ustr ''old''\<rparr>"]
  by (simp add: call_gemini_def api_exn_def ustr_def str_strip_def isspace_def)

section \<open>Generate and Revise treat the reply alike\<close>

text \<open>
  Claim C9. Generate and Revise put the model's reply through the same steps: whenever the
  model's outcome for the revision prompt is the outcome for the story prompt, the response
  of Revise (status, title, story_raw, story_clean, or the error) is the response of
  Generate.
\<close>

theorem same_pipeline:
  assumes "model (StoryPrompt (inspiration greq) (tone greq)) =
           model' (RevisionPrompt (original_story rreq) (feedback rreq))"
  shows "revise model' rreq = generate model greq"
  using assms by (simp add: generate_def revise_def call_gemini_def)

theorem same_pipeline_witness:
  "revise (\<lambda>p. Replies (Some (ustr ''Story:'' @ 10 # ustr ''[TWIST1] End'')))
     \<lparr>feedback = ustr ''more'', original_story = ustr ''old''\<rparr> =
   generate (\<lambda>p. Replies (Some (ustr ''Story:'' @ 10 # ustr ''[TWIST1] End'')))
     \<lparr>inspiration = ustr ''a fox'', tone = ustr ''neutral''\<rparr>"
  using same_pipeline[of "\<lambda>p. Replies (Some (ustr ''Story:'' @ 10 # ustr ''[TWIST1] End''))"
          "\<lparr>inspiration = ustr ''a fox'', tone = ustr ''neutral''\<rparr>"
          "\<lambda>p. Replies (Some (ustr ''Story:'' @ 10 # ustr ''[TWIST1] End''))"
          "\<lparr>feedback = ustr ''more'', original_story = ustr ''old''\<rparr>"]
  by simp

section \<open>Properties of the marker sanitizer\<close>

subsection \<open>Trimming\<close>

lemma rstrip_decomp: "rev (dropWhile P (rev s)) @ rev (takeWhile P (rev s)) = s"
  by (metis rev_append rev_rev_ident takeWhile_dropWhile_id)








subsection \<open>One pass of replacement\<close>


lemma str_replace_prefix:
  "old \<noteq> [] \<Longrightarrow> prefix old s \<Longrightarrow> str_replace old new s = new @ str_replace old new (drop (length old) s)"
  by (cases s) (auto simp: drop_Cons')

lemma str_replace_no_prefix:
  "old \<noteq> [] \<Longrightarrow> \<not> prefix old (c # cs) \<Longrightarrow> str_replace old new (c # cs) = c # str_replace old new cs"
  by simp



lemma str_replace_no_bracket:
  assumes "token m" "91 \<notin> set b"
  shows "str_replace m [] (b @ rest) = b @ str_replace m [] rest"
  using assms(2)
proof (induction b)
  case Nil
  show ?case by simp
next
  case (Cons c b)
  from assms(1) obtain m' where m: "m = 91 # m'" by (cases m) (auto simp: token_def)
  from Cons.prems have "c \<noteq> 91" by auto
  with m have "\<not> prefix m (c # b @ rest)" by auto
  with m Cons show ?case by simp
qed

subsection \<open>The four passes\<close>

lemma token_TWIST: "token TWIST1" "token TWIST2" "token TWIST3" "token TWIST4"
  by (simp_all add: token_def TWIST1_def TWIST2_def TWIST3_def TWIST4_def ustr_def)

lemma TWIST_nonempty: "TWIST1 \<noteq> []" "TWIST2 \<noteq> []" "TWIST3 \<noteq> []" "TWIST4 \<noteq> []"
  by (simp_all add: TWIST1_def TWIST2_def TWIST3_def TWIST4_def ustr_def)




lemma generate_story_clean:
  assumes "content (generate model greq) = [(''title'', t), (''story_raw'', r), (''story_clean'', c)]"
  shows "c = strip_markers r"
proof (cases "call_gemini model (StoryPrompt (inspiration greq) (tone greq))")
  case (Inl e)
  with assms show ?thesis by (simp add: generate_failed_call error_response_def)
next
  case (Inr out)
  show ?thesis
  proof (cases "out = []")
    case True
    with Inr assms show ?thesis by (simp add: generate_empty)
  next
    case False
    obtain t' s' where "parse_gemini_output out = Inr (t', s')" using parse_output_Inr by blast
    with Inr False assms show ?thesis by (auto simp: generate_success)
  qed
qed

lemma revise_story_clean:
  assumes "content (revise model rreq) = [(''title'', t), (''story_raw'', r), (''story_clean'', c)]"
  shows "c = strip_markers r"
proof (cases "call_gemini model (RevisionPrompt (original_story rreq) (feedback rreq))")
  case (Inl e)
  with assms show ?thesis by (simp add: revise_failed_call error_response_def)
next
  case (Inr out)
  show ?thesis
  proof (cases "out = []")
    case True
    with Inr assms show ?thesis by (simp add: revise_empty)
  next
    case False
    obtain t' s' where "parse_gemini_output out = Inr (t', s')" using parse_output_Inr by blast
    with Inr False assms show ?thesis by (auto simp: revise_success)
  qed
qed

subsection \<open>Tokens that appear after a pass\<close>

lemma str_contains_sublist: "str_contains w s \<longleftrightarrow> sublist w s"
  by (induction s) (simp_all add: sublist_Cons_right)

lemma proper_prefixes_iff: "p \<in> set (proper_prefixes m) \<longleftrightarrow> p \<noteq> [] \<and> strict_prefix p m"
  by (auto simp: proper_prefixes_def strict_prefix_def)

lemma split_marker_iff:
  "split_marker s \<longleftrightarrow>
     (\<exists>m\<in>set MARKERS. \<exists>t\<in>set MARKERS. \<exists>p. p \<noteq> [] \<and> strict_prefix p m \<and> sublist (p @ t) s)"
  unfolding split_marker_def str_contains_sublist
  by (metis proper_prefixes_iff)

lemma prefix_after_replace:
  assumes "m \<noteq> []"
  shows "w \<noteq> [] \<Longrightarrow> prefix w (str_replace m [] s) \<Longrightarrow>
         prefix m s \<or> prefix w s \<or> (\<exists>p. p \<noteq> [] \<and> strict_prefix p w \<and> prefix (p @ m) s)"
proof (induction s arbitrary: w)
  case Nil
  with assms show ?case by simp
next
  case (Cons c cs)
  show ?case
  proof (cases "prefix m (c # cs)")
    case True
    then show ?thesis by simp
  next
    case False
    with assms have f: "str_replace m [] (c # cs) = c # str_replace m [] cs" by simp
    from Cons.prems obtain w' where w: "w = c # w'" and p: "prefix w' (str_replace m [] cs)"
      unfolding f by (cases w) auto
    show ?thesis
    proof (cases "w' = []")
      case True
      with w show ?thesis by simp
    next
      case ne: False
      from Cons.IH[OF ne p]
      consider "prefix m cs" | "prefix w' cs"
        | p' where "p' \<noteq> []" "strict_prefix p' w'" "prefix (p' @ m) cs"
        by blast
      then show ?thesis
      proof cases
        case 1
        with ne w have "[c] \<noteq> [] \<and> strict_prefix [c] w \<and> prefix ([c] @ m) (c # cs)"
          by (cases w') simp_all
        then show ?thesis by blast
      next
        case 2
        with w show ?thesis by simp
      next
        case 3
        with w have "c # p' \<noteq> [] \<and> strict_prefix (c # p') w \<and> prefix ((c # p') @ m) (c # cs)" by simp
        then show ?thesis by blast
      qed
    qed
  qed
qed

lemma sublist_after_replace:
  assumes "m \<noteq> []" "w \<noteq> []"
  shows "sublist w (str_replace m [] s) \<Longrightarrow>
         (\<exists>suf. suffix suf s \<and> \<not> prefix m suf \<and> prefix w suf) \<or>
         (\<exists>p. p \<noteq> [] \<and> strict_prefix p w \<and> sublist (p @ m) s)"
proof (induction "length s" arbitrary: s rule: less_induct)
  case less
  show ?case
  proof (cases s)
    case Nil
    with less.prems assms show ?thesis by simp
  next
    case (Cons c cs)
    show ?thesis
    proof (cases "prefix m s")
      case True
      let ?d = "drop (length m) s"
      have "str_replace m [] s = str_replace m [] ?d"
        using str_replace_prefix[OF assms(1) True, of "[]"] by simp
      with less.prems have "sublist w (str_replace m [] ?d)" by simp
      moreover have "length ?d < length s" using assms(1) Cons by simp
      ultimately consider suf where "suffix suf ?d" "\<not> prefix m suf" "prefix w suf"
        | p where "p \<noteq> []" "strict_prefix p w" "sublist (p @ m) ?d"
        using less.hyps by blast
      then show ?thesis
      proof cases
        case 1
        from 1(1) have "suffix suf s" using suffix_drop suffix_order.trans by blast
        with 1 show ?thesis by blast
      next
        case 2
        from 2(3) have "sublist (p @ m) s" using sublist_drop sublist_order.order.trans by blast
        with 2 show ?thesis by blast
      qed
    next
      case False
      with assms(1) Cons have f: "str_replace m [] s = c # str_replace m [] cs" by simp
      from less.prems consider "prefix w (str_replace m [] s)" | "sublist w (str_replace m [] cs)"
        unfolding f by (auto simp: sublist_Cons_right)
      then show ?thesis
      proof cases
        case 1
        from prefix_after_replace[OF assms(1) assms(2) 1] False
        consider "prefix w s" | p where "p \<noteq> []" "strict_prefix p w" "prefix (p @ m) s"
          by blast
        then show ?thesis
        proof cases
          case 1
          with False have "suffix s s \<and> \<not> prefix m s \<and> prefix w s" by simp
          then show ?thesis by blast
        next
          case 2
          then have "p \<noteq> [] \<and> strict_prefix p w \<and> sublist (p @ m) s" by auto
          then show ?thesis by blast
        qed
      next
        case 2
        moreover have "length cs < length s" using Cons by simp
        ultimately consider suf where "suffix suf cs" "\<not> prefix m suf" "prefix w suf"
          | p where "p \<noteq> []" "strict_prefix p w" "sublist (p @ m) cs"
          using less.hyps by blast
        then show ?thesis
        proof cases
          case 1
          from 1(1) have "suffix suf s" unfolding Cons by (rule suffix_ConsI)
          with 1 show ?thesis by blast
        next
          case 2
          from 2(3) have "sublist (p @ m) s" unfolding Cons by (simp add: sublist_Cons_right)
          with 2 show ?thesis by blast
        qed
      qed
    qed
  qed
qed
lemma MARKERS_nonempty: "m \<in> set MARKERS \<Longrightarrow> m \<noteq> []"
  using TWIST_nonempty by (auto simp: MARKERS_def)

lemma split_marker_after_replace:
  assumes "m \<in> set MARKERS" "split_marker (str_replace m [] s)"
  shows "split_marker s"
proof -
  from assms(2) obtain M t p where M: "M \<in> set MARKERS" and t: "t \<in> set MARKERS"
      and p: "p \<noteq> []" "strict_prefix p M" and sub: "sublist (p @ t) (str_replace m [] s)"
    unfolding split_marker_iff by blast
  from assms(1) have mne: "m \<noteq> []" by (rule MARKERS_nonempty)
  from p(1) have wne: "p @ t \<noteq> []" by simp
  from sublist_after_replace[OF mne wne sub]
  consider suf where "suffix suf s" "prefix (p @ t) suf"
    | q where "q \<noteq> []" "strict_prefix q (p @ t)" "sublist (q @ m) s"
    by blast
  then show ?thesis
  proof cases
    case 1
    then have "sublist (p @ t) s" by (auto simp: sublist_altdef')
    with M t p show ?thesis unfolding split_marker_iff by blast
  next
    case 2
    from 2(2) have "prefix q (p @ t)" and neq: "q \<noteq> p @ t" by (simp_all add: strict_prefix_def)
    then consider "prefix q p" | us where "q = p @ us" "prefix us t"
      by (auto simp: prefix_append)
    then show ?thesis
    proof cases
      case 1
      with p(2) have "strict_prefix q M" by (auto simp: strict_prefix_def)
      with 2(1,3) M assms(1) show ?thesis unfolding split_marker_iff by blast
    next
      case us: 2
      show ?thesis
      proof (cases "us = []")
        case True
        with us p(2) have "strict_prefix q M" by simp
        with 2(1,3) M assms(1) show ?thesis unfolding split_marker_iff by blast
      next
        case False
        from us neq have "strict_prefix us t" by (auto simp: strict_prefix_def)
        moreover have "sublist (us @ m) s"
        proof -
          have "sublist (us @ m) (p @ us @ m)" by (rule sublist_append_leftI)
          with 2(3) us(1) show ?thesis using sublist_order.order.trans by fastforce
        qed
        ultimately show ?thesis using False t assms(1) unfolding split_marker_iff by blast
      qed
    qed
  qed
qed

lemma marker_after_replace:
  assumes "m \<in> set MARKERS" "t \<in> set MARKERS" "\<not> split_marker s"
    and "sublist t (str_replace m [] s)"
  shows "t \<noteq> m \<and> sublist t s"
proof -
  from assms(1,2) have mne: "m \<noteq> []" and tne: "t \<noteq> []" by (simp_all add: MARKERS_nonempty)
  from sublist_after_replace[OF mne tne assms(4)]
  consider suf where "suffix suf s" "\<not> prefix m suf" "prefix t suf"
    | q where "q \<noteq> []" "strict_prefix q t" "sublist (q @ m) s"
    by blast
  then show ?thesis
  proof cases
    case 1
    then have "sublist t s" by (auto simp: sublist_altdef')
    moreover from 1 have "t \<noteq> m" by auto
    ultimately show ?thesis by simp
  next
    case 2
    with assms(1,2) have "split_marker s" unfolding split_marker_iff by blast
    with assms(3) show ?thesis by contradiction
  qed
qed

lemma sublist_str_strip: "sublist (str_strip s) s"
proof -
  have "prefix (str_strip s) (dropWhile isspace s)"
    using rstrip_decomp[of isspace "dropWhile isspace s"] unfolding str_strip_def
    by (metis prefixI)
  then have "sublist (str_strip s) (dropWhile isspace s)" by (rule prefix_imp_sublist)
  moreover have "sublist (dropWhile isspace s) s" by (rule sublist_dropWhile)
  ultimately show ?thesis by (rule sublist_order.order.trans)
qed

lemma has_marker_iff: "has_marker s \<longleftrightarrow> (\<exists>t\<in>set MARKERS. sublist t s)"
  by (simp add: has_marker_def MARKERS_def str_contains_sublist)

lemma no_split_marker_clean:
  assumes "\<not> split_marker s"
  shows "\<not> has_marker (strip_markers s)"
proof
  let ?r1 = "str_replace TWIST1 [] s"
  let ?r2 = "str_replace TWIST2 [] ?r1"
  let ?r3 = "str_replace TWIST3 [] ?r2"
  let ?r4 = "str_replace TWIST4 [] ?r3"
  have in1: "TWIST1 \<in> set MARKERS" and in2: "TWIST2 \<in> set MARKERS"
    and in3: "TWIST3 \<in> set MARKERS" and in4: "TWIST4 \<in> set MARKERS"
    by (simp_all add: MARKERS_def)
  have s1: "\<not> split_marker ?r1" using assms split_marker_after_replace[OF in1] by blast
  have s2: "\<not> split_marker ?r2" using s1 split_marker_after_replace[OF in2] by blast
  have s3: "\<not> split_marker ?r3" using s2 split_marker_after_replace[OF in3] by blast
  assume "has_marker (strip_markers s)"
  then obtain t where t: "t \<in> set MARKERS" and "sublist t (str_strip ?r4)"
    unfolding has_marker_iff strip_markers_def by blast
  then have "sublist t ?r4" using sublist_str_strip sublist_order.order.trans by blast
  from marker_after_replace[OF in4 t s3 this] have n4: "t \<noteq> TWIST4" and "sublist t ?r3" by simp_all
  from marker_after_replace[OF in3 t s2 this(2)] have n3: "t \<noteq> TWIST3" and "sublist t ?r2" by simp_all
  from marker_after_replace[OF in2 t s1 this(2)] have n2: "t \<noteq> TWIST2" and "sublist t ?r1" by simp_all
  from marker_after_replace[OF in1 t assms this(2)] have n1: "t \<noteq> TWIST1" by simp
  from t n1 n2 n3 n4 show False by (simp add: MARKERS_def)
qed

text \<open>
  Claim C1, as amended. For every story_raw in which no nonempty proper prefix of a marker
  token is directly followed by a marker token, \<open>strip_markers story_raw\<close> contains none of
  \<open>[TWIST1]\<close>, \<open>[TWIST2]\<close>, \<open>[TWIST3]\<close>, \<open>[TWIST4]\<close>; the story_clean field of a
  successful Generate or Revise response is \<open>strip_markers\<close> of its story_raw field, so it
  contains none of them when story_raw is of that kind.
\<close>

theorem strip_markers_clean:
  assumes "\<not> split_marker s"
  shows "\<not> has_marker (strip_markers s) \<and>
         (content (generate model greq) = [(''title'', t), (''story_raw'', s), (''story_clean'', c)]
            \<longrightarrow> c = strip_markers s \<and> \<not> has_marker c) \<and>
         (content (revise model rreq) = [(''title'', t), (''story_raw'', s), (''story_clean'', c)]
            \<longrightarrow> c = strip_markers s \<and> \<not> has_marker c)"
proof -
  have clean: "\<not> has_marker (strip_markers s)"
    using assms by (rule no_split_marker_clean)
  then show ?thesis using generate_story_clean revise_story_clean by blast
qed

text \<open>
  Without the condition the claim fails: each token is removed in one pass, and removing
  an occurrence can join the text around it into a new one. In \<open>[TWIST[TWIST1]1]\<close> the
  prefix \<open>[TWIST\<close> is followed by a token; the first pass leaves \<open>[TWIST1]\<close>, which the
  later passes do not touch.
\<close>

theorem strip_markers_clean_counterexample:
  "strip_markers (ustr ''[TWIST[TWIST1]1]'') = ustr ''[TWIST1]'' \<and>
   has_marker (strip_markers (ustr ''[TWIST[TWIST1]1]'')) \<and>
   generate (\<lambda>p. Replies (Some (ustr ''[TWIST[TWIST1]1]'')))
       \<lparr>inspiration = ustr ''a fox'', tone = ustr ''neutral''\<rparr> =
     \<lparr>status_code = 200,
      content = [(''title'', []), (''story_raw'', ustr ''[TWIST[TWIST1]1]''),
                 (''story_clean'', ustr ''[TWIST1]'')]\<rparr>"
  by (simp add: generate_def call_gemini_def parse_gemini_output_def str_splitlines_def parse_line_def
        is_title_line_def is_story_line_def str_startswith_def str_lower_def lower_cp_def is_linebreak_def
        has_marker_def strip_markers_def TWIST1_def TWIST2_def TWIST3_def TWIST4_def ustr_def
        str_strip_def isspace_def)

theorem strip_markers_clean_witness:
  "strip_markers (ustr ''[TWIST1] [x] [TWIST5][TWIST3]'') = ustr ''[x] [TWIST5]'' \<and>
   \<not> has_marker (strip_markers (ustr ''[TWIST1] [x] [TWIST5][TWIST3]''))"
proof -
  have 1: "\<not> split_marker (ustr ''[TWIST1] [x] [TWIST5][TWIST3]'')"
    by code_simp
  have 2: "strip_markers (ustr ''[TWIST1] [x] [TWIST5][TWIST3]'') = ustr ''[x] [TWIST5]''"
    by (simp add: strip_markers_def TWIST1_def TWIST2_def TWIST3_def TWIST4_def ustr_def str_strip_def
          isspace_def)
  from strip_markers_clean[OF 1] 2 show ?thesis by simp
qed




section \<open>Parsing a reply of the requested shape\<close>

lemma rstrip_append:
  assumes "a \<noteq> []" "\<not> P (last a)"
  shows "rev (dropWhile P (rev (a @ b))) = a @ rev (dropWhile P (rev b))"
proof -
  from assms(1) obtain a' x where a: "a = a' @ [x]" by (cases a rule: rev_cases) auto
  with assms(2) have "\<not> P x" by simp
  then have "dropWhile P (rev b @ x # rev a') = dropWhile P (rev b) @ x # rev a'"
    by (rule dropWhile_append3)
  then show ?thesis by (simp add: a)
qed

lemma str_strip_append:
  assumes "a \<noteq> []" "\<not> isspace (hd a)" "\<not> isspace (last a)"
  shows "str_strip (a @ b) = a @ rev (dropWhile isspace (rev b))"
proof -
  from assms(1,2) have "dropWhile isspace (a @ b) = a @ b" by (cases a) auto
  then show ?thesis
    using rstrip_append[of a isspace b] assms(1,3) by (simp add: str_strip_def)
qed

lemma str_strip_Cons_space: "isspace w \<Longrightarrow> str_strip (w # s) = str_strip s"
  by (simp add: str_strip_def)

lemma str_strip_snoc_space: "isspace w \<Longrightarrow> str_strip (s @ [w]) = str_strip s"
proof (cases "\<forall>c\<in>set s. isspace c")
  case True
  assume w: "isspace w"
  from True have 1: "dropWhile isspace s = []" by simp
  from True w have 2: "dropWhile isspace (s @ [w]) = []" by simp
  show ?thesis unfolding str_strip_def 1 2 by simp
next
  case False
  assume w: "isspace w"
  from False obtain x where "x \<in> set s" "\<not> isspace x" by blast
  then have "dropWhile isspace (s @ [w]) = dropWhile isspace s @ [w]"
    by (rule dropWhile_append1)
  with w show ?thesis by (simp add: str_strip_def)
qed

lemma str_lower_append: "str_lower (a @ b) = str_lower a @ str_lower b"
  by (simp add: str_lower_def)

lemma splitlines_from_line:
  "\<forall>c\<in>set l. \<not> is_linebreak c \<Longrightarrow>
     splitlines_from cur (l @ 10 # rest) = (cur @ l) # splitlines_from [] rest"
proof (induction l arbitrary: cur)
  case Nil
  show ?case by (simp add: is_linebreak_def)
next
  case (Cons c l)
  then have "\<not> is_linebreak c" by simp
  moreover from this have "c \<noteq> 13" by (auto simp: is_linebreak_def)
  ultimately show ?case using Cons by simp
qed

lemma header_lines:
  assumes "\<forall>c\<in>set X. \<not> is_linebreak c"
  shows "str_splitlines (ustr ''Title: '' @ X @ [10, 10] @ ustr ''Story:'' @ [10] @ Y) =
           (ustr ''Title: '' @ X) # [] # ustr ''Story:'' # str_splitlines Y"
proof -
  have "\<forall>c\<in>set (ustr ''Title: ''). \<not> is_linebreak c"
    by (simp add: ustr_def is_linebreak_def)
  with assms have t: "\<forall>c\<in>set (ustr ''Title: '' @ X). \<not> is_linebreak c"
    by auto
  have s: "\<forall>c\<in>set (ustr ''Story:''). \<not> is_linebreak c"
    by (simp add: ustr_def is_linebreak_def)
  have 1: "splitlines_from [] ((ustr ''Title: '' @ X) @ 10 # 10 # ustr ''Story:'' @ 10 # Y) =
          ([] @ ustr ''Title: '' @ X) # splitlines_from [] (10 # ustr ''Story:'' @ 10 # Y)"
    by (rule splitlines_from_line[OF t])
  have 2: "splitlines_from [] ([] @ 10 # ustr ''Story:'' @ 10 # Y) =
          ([] @ []) # splitlines_from [] (ustr ''Story:'' @ 10 # Y)"
    by (rule splitlines_from_line) simp
  have 3: "splitlines_from [] (ustr ''Story:'' @ 10 # Y) = ([] @ ustr ''Story:'') # splitlines_from [] Y"
    by (rule splitlines_from_line[OF s])
  from 1 2 3 show ?thesis by (simp add: str_splitlines_def)
qed

lemma parse_lines_body:
  assumes "st_mode st = Some ''story''"
    and "\<forall>ln\<in>set lns. \<not> is_title_line ln \<and> \<not> is_story_line ln"
  shows "parse_lines st lns = Inr (st\<lparr>st_story := st_story st @ concat (map (\<lambda>l. l @ [10]) lns)\<rparr>)"
  using assms
proof (induction lns arbitrary: st)
  case Nil
  show ?case by simp
next
  case (Cons ln lns)
  then have 1: "parse_line st ln = Inr (st\<lparr>st_story := st_story st @ ln @ [10]\<rparr>)"
    by (simp add: parse_line_def)
  have "parse_lines (st\<lparr>st_story := st_story st @ ln @ [10]\<rparr>) lns =
          Inr (st\<lparr>st_story := st_story st @ ln @ [10]\<rparr>
                 \<lparr>st_story := st_story (st\<lparr>st_story := st_story st @ ln @ [10]\<rparr>) @ concat (map (\<lambda>l. l @ [10]) lns)\<rparr>)"
    using Cons.prems by (intro Cons.IH) simp_all
  with 1 show ?case by simp
qed

lemma is_linebreak_LF: "is_linebreak 10" and is_linebreak_CR: "is_linebreak 13"
  by (simp_all add: is_linebreak_def)

lemma lines_joined:
  assumes "\<forall>c\<in>set Y. is_linebreak c \<longrightarrow> c = 10" "\<forall>c\<in>set cur. \<not> is_linebreak c"
  shows "concat (map (\<lambda>l. l @ [10]) (splitlines_from cur Y)) =
           (if cur @ Y = [] then [] else if last (cur @ Y) = 10 then cur @ Y else cur @ Y @ [10])"
  using assms
proof (induction Y arbitrary: cur)
  case Nil
  have "last cur \<noteq> 10" if "cur \<noteq> []"
  proof
    assume "last cur = 10"
    with that last_in_set[of cur] have "10 \<in> set cur" by auto
    with Nil.prems(2) have "\<not> is_linebreak 10" by blast
    then show False by (simp add: is_linebreak_LF)
  qed
  then show ?case by auto
next
  case (Cons c cs)
  have c13: "c \<noteq> 13"
  proof
    assume "c = 13"
    with Cons.prems(1) is_linebreak_CR have "(13::nat) = 10" by simp
    then show False by simp
  qed
  have cs: "\<forall>c\<in>set cs. is_linebreak c \<longrightarrow> c = 10" using Cons.prems(1) by simp
  show ?case
  proof (cases "c = 10")
    case True
    have "concat (map (\<lambda>l. l @ [10]) (splitlines_from [] cs)) =
            (if [] @ cs = [] then [] else if last ([] @ cs) = 10 then [] @ cs else [] @ cs @ [10])"
      using cs by (intro Cons.IH) simp_all
    moreover have "splitlines_from cur (c # cs) = cur # splitlines_from [] cs"
      using True by (simp add: is_linebreak_LF)
    ultimately show ?thesis using True by simp
  next
    case False
    with Cons.prems(1) have nb: "\<not> is_linebreak c" by auto
    have "\<forall>x\<in>set (cur @ [c]). \<not> is_linebreak x" using nb Cons.prems(2) by simp
    then have "concat (map (\<lambda>l. l @ [10]) (splitlines_from (cur @ [c]) cs)) =
            (if (cur @ [c]) @ cs = [] then [] else if last ((cur @ [c]) @ cs) = 10 then (cur @ [c]) @ cs
             else (cur @ [c]) @ cs @ [10])"
      using cs by (intro Cons.IH)
    moreover have "splitlines_from cur (c # cs) = splitlines_from (cur @ [c]) cs"
      using nb c13 by simp
    ultimately show ?thesis by simp
  qed
qed

lemma story_joined:
  assumes "\<forall>c\<in>set Y. is_linebreak c \<longrightarrow> c = 10"
  shows "str_strip (concat (map (\<lambda>l. l @ [10]) (str_splitlines Y))) = str_strip Y"
proof -
  have "concat (map (\<lambda>l. l @ [10]) (splitlines_from [] Y)) =
          (if [] @ Y = [] then [] else if last ([] @ Y) = 10 then [] @ Y else [] @ Y @ [10])"
    using assms by (intro lines_joined) simp_all
  moreover have "str_strip (Y @ [10]) = str_strip Y"
    by (rule str_strip_snoc_space) (simp add: isspace_def)
  ultimately show ?thesis by (simp add: str_splitlines_def)
qed

lemma title_header: "is_title_line (ustr ''Title: '' @ X)"
proof -
  have "str_strip (ustr ''Title:'' @ 32 # X) = ustr ''Title:'' @ rev (dropWhile isspace (rev (32 # X)))"
    by (rule str_strip_append) (simp_all add: ustr_def isspace_def)
  then have "str_strip (ustr ''Title: '' @ X) = ustr ''Title:'' @ rev (dropWhile isspace (rev (32 # X)))"
    by (simp add: ustr_def)
  then show ?thesis
    by (simp add: is_title_line_def str_startswith_def str_lower_append)
       (simp add: str_lower_def lower_cp_def ustr_def)
qed

text \<open>
  Claim C3, as amended. For a model output \<open>Title: X\<close>, an empty line, \<open>Story:\<close> and then
  \<open>Y\<close>, where \<open>X\<close> holds no line boundary and no leading or trailing whitespace, the only
  line boundary in \<open>Y\<close> is the line feed, and no line of \<open>Y\<close> starts (trimmed, in lower
  case) with \<open>title:\<close> or \<open>story:\<close>, the parser returns the title \<open>X\<close> and the story
  \<open>Y\<close> trimmed.
\<close>

theorem parse_well_formed:
  assumes "\<forall>c\<in>set X. \<not> is_linebreak c" and "str_strip X = X"
    and "\<forall>c\<in>set Y. is_linebreak c \<longrightarrow> c = 10"
    and "\<forall>ln\<in>set (str_splitlines Y). \<not> is_title_line ln \<and> \<not> is_story_line ln"
  shows "parse_gemini_output (ustr ''Title: '' @ X @ [10, 10] @ ustr ''Story:'' @ [10] @ Y) =
           Inr (X, str_strip Y)"
proof -
  let ?st0 = "\<lparr>st_title = [], st_story = [], st_mode = None\<rparr>"
  have "tl (dropWhile (\<lambda>c. c \<noteq> 58) (ustr ''Title: '' @ X)) = 32 # X"
    by (simp add: ustr_def)
  then have 1: "parse_line ?st0 (ustr ''Title: '' @ X) = Inr \<lparr>st_title = X, st_story = [], st_mode = None\<rparr>"
    using assms(2) by (simp add: parse_line_title title_header str_strip_Cons_space isspace_def)
  have 2: "parse_line \<lparr>st_title = X, st_story = [], st_mode = None\<rparr> [] =
             Inr \<lparr>st_title = X, st_story = [], st_mode = None\<rparr>"
    by (simp add: parse_line_def is_title_line_def is_story_line_def str_startswith_def str_lower_def
          str_strip_def ustr_def)
  have 3: "parse_line \<lparr>st_title = X, st_story = [], st_mode = None\<rparr> (ustr ''Story:'') =
             Inr \<lparr>st_title = X, st_story = [], st_mode = Some ''story''\<rparr>"
    by (simp add: parse_line_def is_title_line_def is_story_line_def str_startswith_def str_lower_def
          lower_cp_def str_strip_def isspace_def ustr_def)
  have 4: "parse_lines \<lparr>st_title = X, st_story = [], st_mode = Some ''story''\<rparr> (str_splitlines Y) =
             Inr \<lparr>st_title = X, st_story = concat (map (\<lambda>l. l @ [10]) (str_splitlines Y)),
                  st_mode = Some ''story''\<rparr>"
    using assms(4) by (simp add: parse_lines_body)
  show ?thesis
    unfolding parse_gemini_output_def header_lines[OF assms(1)]
    by (simp add: 1 2 3 4 story_joined[OF assms(3)])
qed

text \<open>
  Each condition is needed. A body line \<open>Title: B\<close> replaces the title and ends the
  capture of the body; a body with CR LF comes back with LF; a title with a leading space
  comes back trimmed.
\<close>

theorem parse_well_formed_counterexample:
  "parse_gemini_output (ustr ''Title: '' @ ustr ''A'' @ [10, 10] @ ustr ''Story:'' @ [10] @ ustr ''Title: B'') =
     Inr (ustr ''B'', []) \<and>
   parse_gemini_output (ustr ''Title: '' @ ustr ''A'' @ [10, 10] @ ustr ''Story:'' @ [10] @ ustr ''a'' @ [13, 10] @ ustr ''b'') =
     Inr (ustr ''A'', ustr ''a'' @ [10] @ ustr ''b'') \<and>
   parse_gemini_output (ustr ''Title: '' @ ustr '' A'' @ [10, 10] @ ustr ''Story:'' @ [10] @ ustr ''b'') =
     Inr (ustr ''A'', ustr ''b'')"
  by (simp add: parse_gemini_output_def str_splitlines_def parse_line_def list_index_def str_split1_def
        is_title_line_def is_story_line_def str_startswith_def str_lower_def lower_cp_def is_linebreak_def
        ustr_def str_strip_def isspace_def)

theorem parse_well_formed_witness:
  "parse_gemini_output (ustr ''Title: '' @ ustr ''The Last Light'' @ [10, 10] @ ustr ''Story:'' @ [10] @
       ustr ''[TWIST1] She opened the door.'' @ [10] @ ustr ''It was raining.'' @ [10]) =
     Inr (ustr ''The Last Light'', ustr ''[TWIST1] She opened the door.'' @ [10] @ ustr ''It was raining.'')"
proof -
  have 1: "\<forall>c\<in>set (ustr ''The Last Light''). \<not> is_linebreak c"
    by (simp add: ustr_def is_linebreak_def)
  have 2: "str_strip (ustr ''The Last Light'') = ustr ''The Last Light''"
    by (simp add: ustr_def str_strip_def isspace_def)
  have 3: "\<forall>c\<in>set (ustr ''[TWIST1] She opened the door.'' @ [10] @ ustr ''It was raining.'' @ [10]).
             is_linebreak c \<longrightarrow> c = 10"
    by (simp add: ustr_def is_linebreak_def)
  have 4: "\<forall>ln\<in>set (str_splitlines
               (ustr ''[TWIST1] She opened the door.'' @ [10] @ ustr ''It was raining.'' @ [10])).
             \<not> is_title_line ln \<and> \<not> is_story_line ln"
    by (simp add: str_splitlines_def is_title_line_def is_story_line_def str_startswith_def str_lower_def
          lower_cp_def is_linebreak_def ustr_def str_strip_def isspace_def)
  have 5: "str_strip (ustr ''[TWIST1] She opened the door.'' @ [10] @ ustr ''It was raining.'' @ [10]) =
             ustr ''[TWIST1] She opened the door.'' @ [10] @ ustr ''It was raining.''"
    by (simp add: ustr_def str_strip_def isspace_def)
  from parse_well_formed[OF 1 2 3 4] show ?thesis unfolding 5 .
qed

section \<open>Lines of a trimmed text\<close>

lemma str_strip_Nil: "str_strip [] = []"
  by (simp add: str_strip_def)

lemma str_strip_spaces_append: "\<forall>c\<in>set ws. isspace c \<Longrightarrow> str_strip (ws @ x) = str_strip x"
  by (induction ws) (simp_all add: str_strip_Cons_space)

lemma str_strip_spaces: "\<forall>c\<in>set ws. isspace c \<Longrightarrow> str_strip ws = []"
  using str_strip_spaces_append[of ws "[]"] by (simp add: str_strip_Nil)

lemma nonblank_Cons: "nonblank (l # ls) = (if str_strip l = [] then nonblank ls else str_strip l # nonblank ls)"
  by (simp add: nonblank_def)

lemma nonblank_Nil: "nonblank [] = []"
  by (simp add: nonblank_def)

lemma splitlines_from_break:
  "is_linebreak c \<Longrightarrow> \<not> (c = 13 \<and> cs \<noteq> [] \<and> hd cs = 10) \<Longrightarrow>
     splitlines_from cur (c # cs) = cur # splitlines_from [] cs"
  by (simp only: splitlines_from.simps if_False if_True)

lemma splitlines_from_crlf:
  "c = 13 \<and> cs \<noteq> [] \<and> hd cs = 10 \<Longrightarrow>
     splitlines_from cur (c # cs) = cur # splitlines_from [] (tl cs)"
  by simp

lemma splitlines_from_char:
  "\<not> is_linebreak c \<Longrightarrow> splitlines_from cur (c # cs) = splitlines_from (cur @ [c]) cs"
  using is_linebreak_CR by (cases "c = 13") simp_all

lemma nonblank_spaces_cur:
  assumes "\<forall>c\<in>set ws. isspace c"
  shows "nonblank (splitlines_from (ws @ cur) s) = nonblank (splitlines_from cur s)"
proof (induction s arbitrary: cur)
  case Nil
  show ?case
    using assms
    by (simp add: nonblank_Cons nonblank_Nil str_strip_spaces_append str_strip_spaces str_strip_Nil)
next
  case (Cons c cs)
  have "nonblank (splitlines_from (ws @ cur @ [c]) cs) = nonblank (splitlines_from (cur @ [c]) cs)"
    by (rule Cons.IH)
  then show ?case
    using assms by (simp add: nonblank_Cons str_strip_spaces_append)
qed

lemma nonblank_space_first:
  assumes "isspace w"
  shows "nonblank (splitlines_from [] (w # s)) = nonblank (splitlines_from [] s)"
proof (cases "w = 13 \<and> s \<noteq> [] \<and> hd s = 10")
  case True
  then obtain s' where s: "s = 10 # s'" by (cases s) auto
  with True show ?thesis by (simp add: is_linebreak_LF nonblank_Cons str_strip_Nil)
next
  case False
  show ?thesis
  proof (cases "is_linebreak w")
    case True
    with False show ?thesis by (auto simp: nonblank_Cons str_strip_Nil)
  next
    case nb: False
    have "nonblank (splitlines_from ([w] @ []) s) = nonblank (splitlines_from [] s)"
      using assms by (intro nonblank_spaces_cur) simp
    with False nb show ?thesis by auto
  qed
qed

lemma nonblank_lstrip:
  "nonblank (splitlines_from [] (dropWhile isspace s)) = nonblank (splitlines_from [] s)"
proof (induction s)
  case Nil
  show ?case by simp
next
  case (Cons a s)
  show ?case
  proof (cases "isspace a")
    case True
    then have "dropWhile isspace (a # s) = dropWhile isspace s" by simp
    with Cons nonblank_space_first[OF True, of s] show ?thesis by (simp only:)
  next
    case False
    then have "dropWhile isspace (a # s) = a # s" by simp
    then show ?thesis by (simp only:)
  qed
qed

lemma nonblank_space_last:
  assumes "isspace w"
  shows "nonblank (splitlines_from cur (s @ [w])) = nonblank (splitlines_from cur s)"
proof (induction cur s rule: splitlines_from.induct)
  case (1 cur)
  have "str_strip (cur @ [w]) = str_strip cur" using assms by (rule str_strip_snoc_space)
  moreover have "str_strip [w] = []" using assms by (simp add: str_strip_spaces)
  ultimately show ?case by (simp add: nonblank_Cons nonblank_Nil str_strip_Nil)
next
  case (2 cur c cs)
  show ?case
  proof (cases "c = 13 \<and> cs \<noteq> [] \<and> hd cs = 10")
    case True
    with 2(1) have IH: "nonblank (splitlines_from [] (tl cs @ [w])) = nonblank (splitlines_from [] (tl cs))"
      by simp
    from True have "c = 13 \<and> cs @ [w] \<noteq> [] \<and> hd (cs @ [w]) = 10" by simp
    then have "splitlines_from cur (c # cs @ [w]) = cur # splitlines_from [] (tl (cs @ [w]))"
      by (rule splitlines_from_crlf)
    with True have e1: "splitlines_from cur ((c # cs) @ [w]) = cur # splitlines_from [] (tl cs @ [w])"
      by simp
    from True have e2: "splitlines_from cur (c # cs) = cur # splitlines_from [] (tl cs)"
      by (rule splitlines_from_crlf)
    show ?thesis unfolding e1 e2 by (simp add: nonblank_Cons IH)
  next
    case F1: False
    show ?thesis
    proof (cases "is_linebreak c")
      case True
      with F1 2(2) have IH: "nonblank (splitlines_from [] (cs @ [w])) = nonblank (splitlines_from [] cs)"
        by simp
      from True F1 have e2: "splitlines_from cur (c # cs) = cur # splitlines_from [] cs"
        by (rule splitlines_from_break)
      show ?thesis
      proof (cases "c = 13 \<and> cs = [] \<and> w = 10")
        case True
        then have e1: "splitlines_from cur ((c # cs) @ [w]) = [cur]" by simp
        from True have e3: "splitlines_from cur (c # cs) = [cur]" by (simp add: is_linebreak_CR)
        show ?thesis unfolding e1 e3 ..
      next
        case False
        with F1 have "\<not> (c = 13 \<and> cs @ [w] \<noteq> [] \<and> hd (cs @ [w]) = 10)" by (cases cs) auto
        with True have "splitlines_from cur (c # cs @ [w]) = cur # splitlines_from [] (cs @ [w])"
          by (rule splitlines_from_break)
        then have e1: "splitlines_from cur ((c # cs) @ [w]) = cur # splitlines_from [] (cs @ [w])"
          by simp
        show ?thesis unfolding e1 e2 by (simp add: nonblank_Cons IH)
      qed
    next
      case False
      with F1 2(3) have IH: "nonblank (splitlines_from (cur @ [c]) (cs @ [w])) = nonblank (splitlines_from (cur @ [c]) cs)"
        by simp
      from False have c13: "c \<noteq> 13" using is_linebreak_CR by auto
      from False have e1: "splitlines_from cur ((c # cs) @ [w]) = splitlines_from (cur @ [c]) (cs @ [w])"
        by (simp add: splitlines_from_char del: splitlines_from.simps)
      from False have e2: "splitlines_from cur (c # cs) = splitlines_from (cur @ [c]) cs"
        by (rule splitlines_from_char)
      show ?thesis unfolding e1 e2 by (rule IH)
    qed
  qed
qed

lemma nonblank_rstrip:
  "nonblank (splitlines_from [] (rev (dropWhile isspace (rev s)))) = nonblank (splitlines_from [] s)"
proof (induction s rule: rev_induct)
  case Nil
  show ?case by simp
next
  case (snoc x xs)
  show ?case
  proof (cases "isspace x")
    case True
    with snoc show ?thesis by (simp add: nonblank_space_last)
  next
    case False
    then show ?thesis by simp
  qed
qed

lemma nonblank_str_strip: "nonblank (str_splitlines (str_strip s)) = nonblank (str_splitlines s)"
  by (simp add: str_splitlines_def str_strip_def nonblank_rstrip nonblank_lstrip)

lemma is_story_line_nonblank:
  "(\<exists>ln\<in>set lns. is_story_line ln) \<longleftrightarrow>
   (\<exists>l\<in>set (nonblank lns). str_startswith (str_lower l) (ustr ''story:''))"
proof -
  have "\<not> str_startswith (str_lower []) (ustr ''story:'')"
    by (simp add: str_startswith_def str_lower_def ustr_def)
  then show ?thesis
    unfolding nonblank_def is_story_line_def by (auto simp: image_iff)
qed

lemma is_title_line_nonblank:
  "(\<exists>ln\<in>set lns. is_title_line ln) \<longleftrightarrow>
   (\<exists>l\<in>set (nonblank lns). str_startswith (str_lower l) (ustr ''title:''))"
proof -
  have "\<not> str_startswith (str_lower []) (ustr ''title:'')"
    by (simp add: str_startswith_def str_lower_def ustr_def)
  then show ?thesis
    unfolding nonblank_def is_title_line_def by (auto simp: image_iff)
qed

lemma story_line_str_strip:
  "(\<exists>ln\<in>set (str_splitlines (str_strip s)). is_story_line ln) \<longleftrightarrow>
   (\<exists>ln\<in>set (str_splitlines s). is_story_line ln)"
  by (simp only: is_story_line_nonblank nonblank_str_strip)

lemma title_line_str_strip:
  "(\<exists>ln\<in>set (str_splitlines (str_strip s)). is_title_line ln) \<longleftrightarrow>
   (\<exists>ln\<in>set (str_splitlines s). is_title_line ln)"
  by (simp only: is_title_line_nonblank nonblank_str_strip)

section \<open>A reply without a story line\<close>

lemma parse_line_other:
  "\<not> is_title_line ln \<Longrightarrow> \<not> is_story_line ln \<Longrightarrow>
     parse_line st ln =
       Inr (if st_mode st = Some ''story'' then st\<lparr>st_story := st_story st @ ln @ [10]\<rparr> else st)"
  by (simp add: parse_line_def)

lemma parse_lines_no_story:
  assumes "\<forall>ln\<in>set lns. \<not> is_story_line ln" "st_mode st \<noteq> Some ''story''"
  shows "\<exists>st'. parse_lines st lns = Inr st' \<and> st_story st' = st_story st \<and> st_mode st' \<noteq> Some ''story''"
  using assms
proof (induction lns arbitrary: st)
  case Nil
  then show ?case by simp
next
  case (Cons ln lns)
  show ?case
  proof (cases "is_title_line ln")
    case True
    let ?st1 = "st\<lparr>st_title := str_strip (tl (dropWhile (\<lambda>c. c \<noteq> 58) ln)), st_mode := None\<rparr>"
    have "\<exists>st'. parse_lines ?st1 lns = Inr st' \<and> st_story st' = st_story ?st1 \<and> st_mode st' \<noteq> Some ''story''"
      using Cons.prems by (intro Cons.IH) simp_all
    with True show ?thesis by (simp add: parse_line_title)
  next
    case False
    have "\<exists>st'. parse_lines st lns = Inr st' \<and> st_story st' = st_story st \<and> st_mode st' \<noteq> Some ''story''"
      using Cons.prems by (intro Cons.IH) simp_all
    with False Cons.prems show ?thesis by (simp add: parse_line_other)
  qed
qed

lemma parse_no_story_line:
  assumes "\<forall>ln\<in>set (str_splitlines s). \<not> is_story_line ln"
  shows "\<exists>t. parse_gemini_output s = Inr (t, [])"
proof -
  obtain st' where "parse_lines \<lparr>st_title = [], st_story = [], st_mode = None\<rparr> (str_splitlines s) = Inr st'"
      "st_story st' = []"
    using parse_lines_no_story[OF assms, of "\<lparr>st_title = [], st_story = [], st_mode = None\<rparr>"] by auto
  then show ?thesis by (simp add: parse_gemini_output_def str_strip_Nil)
qed

text \<open>
  Claim C4, as amended. For every model output text that is not blank (not empty once
  trimmed) and has no line whose trimmed lower-case form starts with \<open>story:\<close>, the parser
  applied to the trimmed text returns an empty story, and Generate and Revise return
  story_raw equal to the whole text trimmed of leading and trailing whitespace.
\<close>

theorem fallback_without_story_line:
  assumes "str_strip s \<noteq> []" and "\<forall>ln\<in>set (str_splitlines s). \<not> is_story_line ln"
  shows "\<exists>t. parse_gemini_output (str_strip s) = Inr (t, []) \<and>
           (model (StoryPrompt (inspiration greq) (tone greq)) = Replies (Some s) \<longrightarrow>
              generate model greq =
                \<lparr>status_code = 200,
                 content = [(''title'', t), (''story_raw'', str_strip s),
                            (''story_clean'', strip_markers (str_strip s))]\<rparr>) \<and>
           (model (RevisionPrompt (original_story rreq) (feedback rreq)) = Replies (Some s) \<longrightarrow>
              revise model rreq =
                \<lparr>status_code = 200,
                 content = [(''title'', t), (''story_raw'', str_strip s),
                            (''story_clean'', strip_markers (str_strip s))]\<rparr>)"
proof -
  from assms(2) have "\<forall>ln\<in>set (str_splitlines (str_strip s)). \<not> is_story_line ln"
    using story_line_str_strip[of s] by blast
  then obtain t where t: "parse_gemini_output (str_strip s) = Inr (t, [])"
    using parse_no_story_line by blast
  have "generate model greq =
          \<lparr>status_code = 200,
           content = [(''title'', t), (''story_raw'', str_strip s),
                      (''story_clean'', strip_markers (str_strip s))]\<rparr>"
    if "model (StoryPrompt (inspiration greq) (tone greq)) = Replies (Some s)"
  proof -
    from that have "call_gemini model (StoryPrompt (inspiration greq) (tone greq)) = Inr (str_strip s)"
      by (simp add: call_gemini_def)
    from generate_success[OF this assms(1) t] show ?thesis by simp
  qed
  moreover have "revise model rreq =
          \<lparr>status_code = 200,
           content = [(''title'', t), (''story_raw'', str_strip s),
                      (''story_clean'', strip_markers (str_strip s))]\<rparr>"
    if "model (RevisionPrompt (original_story rreq) (feedback rreq)) = Replies (Some s)"
  proof -
    from that have "call_gemini model (RevisionPrompt (original_story rreq) (feedback rreq)) = Inr (str_strip s)"
      by (simp add: call_gemini_def)
    from revise_success[OF this assms(1) t] show ?thesis by simp
  qed
  ultimately show ?thesis using t by blast
qed

text \<open>
  A text of one space is not empty and has no story line, but it is empty once trimmed:
  the handler answers with the empty-response error and returns no story_raw.
\<close>

theorem fallback_without_story_line_counterexample:
  "[32] \<noteq> [] \<and> str_splitlines [32] = [[32]] \<and> \<not> is_story_line [32] \<and>
   generate (\<lambda>p. Replies (Some [32])) \<lparr>inspiration = ustr ''a fox'', tone = ustr ''neutral''\<rparr> =
     \<lparr>status_code = 500, content = [(''error'', ustr ''Empty response from model'')]\<rparr>"
  by (simp add: generate_def call_gemini_def str_splitlines_def is_story_line_def str_startswith_def
        str_lower_def lower_cp_def is_linebreak_def str_strip_def isspace_def ustr_def)

theorem fallback_without_story_line_witness:
  "parse_gemini_output (ustr ''Once upon a time.'' @ [10] @ ustr ''The end.'') = Inr ([], []) \<and>
   generate (\<lambda>p. Replies (Some (ustr '' Once upon a time.'' @ [10] @ ustr ''The end.'' @ [10])))
       \<lparr>inspiration = ustr ''a fox'', tone = ustr ''neutral''\<rparr> =
     \<lparr>status_code = 200,
      content = [(''title'', []),
                 (''story_raw'', ustr ''Once upon a time.'' @ [10] @ ustr ''The end.''),
                 (''story_clean'', ustr ''Once upon a time.'' @ [10] @ ustr ''The end.'')]\<rparr>"
proof -
  let ?s = "ustr '' Once upon a time.'' @ [10] @ ustr ''The end.'' @ [10]"
  have 1: "str_strip ?s \<noteq> []"
    by (simp add: ustr_def str_strip_def isspace_def)
  have 2: "\<forall>ln\<in>set (str_splitlines ?s). \<not> is_story_line ln"
    by (simp add: str_splitlines_def is_story_line_def str_startswith_def str_lower_def
          lower_cp_def is_linebreak_def ustr_def str_strip_def isspace_def)
  have 3: "str_strip ?s = ustr ''Once upon a time.'' @ [10] @ ustr ''The end.''"
    by (simp add: ustr_def str_strip_def isspace_def)
  have 4: "strip_markers (ustr ''Once upon a time.'' @ [10] @ ustr ''The end.'') =
             ustr ''Once upon a time.'' @ [10] @ ustr ''The end.''"
    by (simp add: strip_markers_def TWIST1_def TWIST2_def TWIST3_def TWIST4_def ustr_def str_strip_def
          isspace_def)
  have 5: "parse_gemini_output (ustr ''Once upon a time.'' @ [10] @ ustr ''The end.'') = Inr (t, []) \<Longrightarrow>
             t = []" for t
    by (simp add: parse_gemini_output_def parse_line_def str_splitlines_def is_title_line_def
          is_story_line_def str_startswith_def str_lower_def lower_cp_def is_linebreak_def ustr_def
          str_strip_def isspace_def)
  from fallback_without_story_line[OF 1 2,
         of "\<lambda>p. Replies (Some ?s)" "\<lparr>inspiration = ustr ''a fox'', tone = ustr ''neutral''\<rparr>"
            "\<lparr>feedback = ustr ''more'', original_story = ustr ''old''\<rparr>"]
  show ?thesis unfolding 3 4 using 5 by auto
qed

section \<open>Marker removal, line by line\<close>

subsection \<open>The first line of a text\<close>

lemma splitlines_from_upto_break:
  assumes "\<forall>c\<in>set l. \<not> is_linebreak c" "is_linebreak b"
  shows "splitlines_from cur (l @ b # r) =
           (cur @ l) # splitlines_from [] (if b = 13 \<and> r \<noteq> [] \<and> hd r = 10 then tl r else r)"
  using assms(1)
proof (induction l arbitrary: cur)
  case Nil
  show ?case using assms(2) by simp
next
  case (Cons c l)
  then have "\<not> is_linebreak c" by simp
  then have "splitlines_from cur (c # l @ b # r) = splitlines_from (cur @ [c]) (l @ b # r)"
    by (rule splitlines_from_char)
  with Cons show ?case by simp
qed

lemma splitlines_from_no_break:
  assumes "\<forall>c\<in>set l. \<not> is_linebreak c"
  shows "splitlines_from cur l = (if cur @ l = [] then [] else [cur @ l])"
  using assms
proof (induction l arbitrary: cur)
  case Nil
  show ?case by simp
next
  case (Cons c l)
  then have "\<not> is_linebreak c" by simp
  then have "splitlines_from cur (c # l) = splitlines_from (cur @ [c]) l"
    by (rule splitlines_from_char)
  with Cons show ?case by simp
qed

lemma first_line_cases:
  obtains (single) "\<forall>c\<in>set s. \<not> is_linebreak c"
  | (more) l b r where "s = l @ b # r" "\<forall>c\<in>set l. \<not> is_linebreak c" "is_linebreak b"
proof (cases "dropWhile (\<lambda>c. \<not> is_linebreak c) s")
  case Nil
  then have "\<forall>c\<in>set s. \<not> is_linebreak c" by (simp add: dropWhile_eq_Nil_conv)
  then show ?thesis by (rule single)
next
  case (Cons b r)
  have "s = takeWhile (\<lambda>c. \<not> is_linebreak c) s @ b # r"
    using takeWhile_dropWhile_id[of "\<lambda>c. \<not> is_linebreak c" s] Cons by simp
  moreover have "\<forall>c\<in>set (takeWhile (\<lambda>c. \<not> is_linebreak c) s). \<not> is_linebreak c"
    using set_takeWhileD by fastforce
  moreover have "is_linebreak b"
    using hd_dropWhile[of "\<lambda>c. \<not> is_linebreak c" s] Cons by simp
  ultimately show ?thesis by (rule more)
qed

subsection \<open>Replacement does not cross a line boundary\<close>

lemma prefix_before:
  assumes "prefix m (a @ b # c)" "b \<notin> set m"
  shows "prefix m a"
proof -
  from assms(1) consider "prefix m a" | us where "m = a @ us" "prefix us (b # c)"
    by (auto simp: prefix_append)
  then show ?thesis
  proof cases
    case 1
    then show ?thesis .
  next
    case 2
    with assms(2) have "us = []" by (cases us) auto
    with 2 show ?thesis by simp
  qed
qed

lemma str_replace_across:
  assumes "m \<noteq> []" "b \<notin> set m"
  shows "str_replace m [] (a @ b # c) = str_replace m [] a @ b # str_replace m [] c"
proof (induction "length a" arbitrary: a rule: less_induct)
  case less
  show ?case
  proof (cases a)
    case Nil
    from assms have "\<not> prefix m (b # c)" by (cases m) auto
    with assms(1) Nil show ?thesis by simp
  next
    case (Cons x a')
    show ?thesis
    proof (cases "prefix m a")
      case True
      then have p: "prefix m (a @ b # c)" by (simp add: prefix_append)
      from True have len: "length m \<le> length a" by (rule prefix_length_le)
      have "length (drop (length m) a) < length a" using assms(1) Cons by simp
      then have IH: "str_replace m [] (drop (length m) a @ b # c) =
                       str_replace m [] (drop (length m) a) @ b # str_replace m [] c"
        by (rule less.hyps)
      have 1: "str_replace m [] (a @ b # c) = str_replace m [] (drop (length m) a @ b # c)"
        using str_replace_prefix[OF assms(1) p, of "[]"] len by simp
      have 2: "str_replace m [] a = str_replace m [] (drop (length m) a)"
        using str_replace_prefix[OF assms(1) True, of "[]"] by simp
      from IH show ?thesis by (simp only: 1 2)
    next
      case False
      have np: "\<not> prefix m (a @ b # c)"
      proof
        assume "prefix m (a @ b # c)"
        then have "prefix m a" using assms(2) by (rule prefix_before)
        with False show False by contradiction
      qed
      have IH: "str_replace m [] (a' @ b # c) = str_replace m [] a' @ b # str_replace m [] c"
        using Cons by (intro less.hyps) simp
      from np Cons have "str_replace m [] (a @ b # c) = x # str_replace m [] (a' @ b # c)"
        using assms(1) by simp
      moreover from False Cons have "str_replace m [] a = x # str_replace m [] a'"
        using assms(1) by simp
      ultimately show ?thesis using IH by simp
    qed
  qed
qed

lemma set_str_replace: "m \<noteq> [] \<Longrightarrow> set (str_replace m [] s) \<subseteq> set s"
proof (induction "length s" arbitrary: s rule: less_induct)
  case less
  show ?case
  proof (cases s)
    case Nil
    with less.prems show ?thesis by simp
  next
    case (Cons c cs)
    show ?thesis
    proof (cases "prefix m s")
      case True
      have "length (drop (length m) s) < length s" using less.prems Cons by simp
      then have "set (str_replace m [] (drop (length m) s)) \<subseteq> set (drop (length m) s)"
        using less.hyps less.prems by blast
      moreover have "set (drop (length m) s) \<subseteq> set s" by (rule set_drop_subset)
      ultimately show ?thesis using str_replace_prefix[OF less.prems True, of "[]"] by auto
    next
      case False
      have "set (str_replace m [] cs) \<subseteq> set cs" using less.hyps[of cs] less.prems Cons by simp
      with False Cons less.prems show ?thesis by auto
    qed
  qed
qed

subsection \<open>Title lines\<close>

lemma lower_cp_title:
  assumes "set (lower_cp c) \<subseteq> set (ustr ''title:'')"
  shows "\<not> isspace c \<and> c \<noteq> 91 \<and> \<not> is_linebreak c"
proof -
  from assms have "c \<in> {84, 116, 73, 105, 76, 108, 69, 101, 58}"
    by (auto simp: lower_cp_def ustr_def split: if_splits)
  then show ?thesis by (auto simp: isspace_def is_linebreak_def)
qed

lemma str_lower_cut:
  assumes "prefix P (str_lower x)" "775 \<notin> set P" "P \<noteq> [] \<longrightarrow> last P \<noteq> 105"
  shows "\<exists>t z. x = t @ z \<and> str_lower t = P"
  using assms
proof (induction x arbitrary: P)
  case Nil
  then show ?case by (simp add: str_lower_def)
next
  case (Cons c x)
  show ?case
  proof (cases P)
    case Nil
    then have "c # x = [] @ (c # x) \<and> str_lower [] = P" by (simp add: str_lower_def)
    then show ?thesis by blast
  next
    case P: (Cons a P')
    have low: "str_lower (c # x) = lower_cp c @ str_lower x" by (simp add: str_lower_def)
    show ?thesis
    proof (cases "c = 304")
      case True
      with Cons.prems P low have "prefix (a # P') (105 # 775 # str_lower x)" by (simp add: lower_cp_def)
      then have "a = 105" and "prefix P' (775 # str_lower x)" by simp_all
      with Cons.prems(2,3) P show ?thesis by (cases P') auto
    next
      case False
      then have "\<exists>a'. lower_cp c = [a']" by (simp add: lower_cp_def)
      then obtain a' where a': "lower_cp c = [a']" by blast
      with Cons.prems(1) P low have "a = a'" and p: "prefix P' (str_lower x)" by simp_all
      have "\<exists>t z. x = t @ z \<and> str_lower t = P'"
        using p Cons.prems(2,3) P by (intro Cons.IH) auto
      then obtain t z where "x = t @ z" "str_lower t = P'" by blast
      then have "c # x = (c # t) @ z \<and> str_lower (c # t) = P"
        using a' \<open>a = a'\<close> P by (simp add: str_lower_def)
      then show ?thesis by blast
    qed
  qed
qed

lemma str_lower_title_chars:
  assumes "str_lower t = ustr ''title:''" "c \<in> set t"
  shows "\<not> isspace c \<and> c \<noteq> 91 \<and> \<not> is_linebreak c"
proof -
  from assms(2) have "set (lower_cp c) \<subseteq> set (str_lower t)" by (auto simp: str_lower_def)
  with assms(1) show ?thesis by (simp add: lower_cp_title)
qed

lemma is_title_lineI:
  assumes "\<forall>c\<in>set ws. isspace c" "str_lower t = ustr ''title:''"
  shows "is_title_line (ws @ t @ u)"
proof -
  from assms(2) have ne: "t \<noteq> []" by (auto simp: str_lower_def ustr_def)
  then have "hd t \<in> set t" "last t \<in> set t" by simp_all
  with assms(2) have "\<not> isspace (hd t)" "\<not> isspace (last t)"
    using str_lower_title_chars by blast+
  with ne have "str_strip (t @ u) = t @ rev (dropWhile isspace (rev u))"
    by (intro str_strip_append)
  with assms show ?thesis
    by (simp add: is_title_line_def str_startswith_def str_strip_spaces_append str_lower_append)
qed

lemma is_title_lineE:
  assumes "is_title_line l"
  obtains ws t u where "l = ws @ t @ u" "\<forall>c\<in>set ws. isspace c" "str_lower t = ustr ''title:''"
proof -
  let ?y = "dropWhile isspace l"
  let ?x = "str_strip l"
  have "prefix (ustr ''title:'') (str_lower ?x)"
    using assms by (simp add: is_title_line_def str_startswith_def)
  moreover have "775 \<notin> set (ustr ''title:'')" and "last (ustr ''title:'') \<noteq> 105"
    by (simp_all add: ustr_def)
  ultimately obtain t z where tz: "?x = t @ z" "str_lower t = ustr ''title:''"
    using str_lower_cut[of "ustr ''title:''" ?x] by blast
  have "?x @ rev (takeWhile isspace (rev ?y)) = ?y"
    unfolding str_strip_def by (rule rstrip_decomp)
  with tz(1) have "l = takeWhile isspace l @ t @ (z @ rev (takeWhile isspace (rev ?y)))"
    using takeWhile_dropWhile_id[of isspace l] by simp
  moreover have "\<forall>c\<in>set (takeWhile isspace l). isspace c" using set_takeWhileD by fastforce
  ultimately show ?thesis using tz(2) by (rule that)
qed

lemma is_title_line_Nil: "\<not> is_title_line []"
  by (simp add: is_title_line_def str_startswith_def str_lower_def str_strip_def ustr_def)

lemma str_replace_title_line:
  assumes "token m" "is_title_line l"
  shows "is_title_line (str_replace m [] l)"
proof -
  from assms(2) obtain ws t u where l: "l = ws @ t @ u" and ws: "\<forall>c\<in>set ws. isspace c"
      and t: "str_lower t = ustr ''title:''"
    by (rule is_title_lineE)
  have "91 \<notin> set ws" using ws by (auto simp: isspace_def)
  moreover have "91 \<notin> set t" using t str_lower_title_chars by blast
  ultimately have "91 \<notin> set (ws @ t)" by simp
  then have "str_replace m [] ((ws @ t) @ u) = (ws @ t) @ str_replace m [] u"
    using assms(1) by (intro str_replace_no_bracket)
  then have "str_replace m [] l = ws @ t @ str_replace m [] u" by (simp add: l)
  with ws t show ?thesis by (simp add: is_title_lineI)
qed

lemma str_replace_Cons_other:
  assumes "token m" "c \<noteq> 91"
  shows "str_replace m [] (c # s) = c # str_replace m [] s"
  using str_replace_no_bracket[OF assms(1), of "[c]" s] assms(2) by simp

lemma str_replace_keeps_title:
  assumes "token m" "\<forall>b. is_linebreak b \<longrightarrow> b \<notin> set m"
  shows "\<exists>l\<in>set (str_splitlines s). is_title_line l \<Longrightarrow>
         \<exists>l\<in>set (str_splitlines (str_replace m [] s)). is_title_line l"
proof (induction "length s" arbitrary: s rule: less_induct)
  case less
  from assms(1) have mne: "m \<noteq> []" by (simp add: token_def)
  show ?case
  proof (rule first_line_cases[of s])
    assume nb: "\<forall>c\<in>set s. \<not> is_linebreak c"
    then have "str_splitlines s = (if s = [] then [] else [s])"
      by (simp add: str_splitlines_def splitlines_from_no_break)
    with less.prems have "is_title_line s" by (auto split: if_splits)
    then have t: "is_title_line (str_replace m [] s)" using assms(1) by (simp add: str_replace_title_line)
    then have "str_replace m [] s \<noteq> []" using is_title_line_Nil by auto
    moreover have "\<forall>c\<in>set (str_replace m [] s). \<not> is_linebreak c"
      using nb set_str_replace[OF mne, of s] by blast
    ultimately have "str_splitlines (str_replace m [] s) = [str_replace m [] s]"
      by (simp add: str_splitlines_def splitlines_from_no_break)
    with t show ?thesis by simp
  next
    fix l b r
    assume s: "s = l @ b # r" and nb: "\<forall>c\<in>set l. \<not> is_linebreak c" and b: "is_linebreak b"
    let ?r1 = "if b = 13 \<and> r \<noteq> [] \<and> hd r = 10 then tl r else r"
    let ?fr = "str_replace m [] r"
    let ?r2 = "if b = 13 \<and> ?fr \<noteq> [] \<and> hd ?fr = 10 then tl ?fr else ?fr"
    have lines: "str_splitlines s = l # str_splitlines ?r1"
      unfolding s str_splitlines_def using splitlines_from_upto_break[OF nb b, of "[]" r] by simp
    have fs: "str_replace m [] s = str_replace m [] l @ b # ?fr"
      unfolding s using assms(2) b by (intro str_replace_across[OF mne]) blast
    have "\<forall>c\<in>set (str_replace m [] l). \<not> is_linebreak c"
      using nb set_str_replace[OF mne, of l] by blast
    then have flines: "str_splitlines (str_replace m [] s) = str_replace m [] l # str_splitlines ?r2"
      unfolding fs str_splitlines_def using splitlines_from_upto_break[OF _ b, of "str_replace m [] l" "[]" ?fr]
      by simp
    from less.prems lines consider "is_title_line l" | "\<exists>l\<in>set (str_splitlines ?r1). is_title_line l"
      by auto
    then show ?thesis
    proof cases
      case 1
      then have "is_title_line (str_replace m [] l)" using assms(1) by (simp add: str_replace_title_line)
      with flines show ?thesis by simp
    next
      case 2
      show ?thesis
      proof (cases "b = 13 \<and> r \<noteq> [] \<and> hd r = 10")
        case True
        then obtain r' where r: "r = 10 # r'" by (cases r) auto
        with True 2 have "\<exists>l\<in>set (str_splitlines r'). is_title_line l" by simp
        moreover have "length r' < length s" using s r by simp
        ultimately have "\<exists>l\<in>set (str_splitlines (str_replace m [] r')). is_title_line l"
          using less.hyps by blast
        moreover have "?fr = 10 # str_replace m [] r'"
          unfolding r using assms(1) by (rule str_replace_Cons_other) simp
        ultimately show ?thesis using flines True by simp
      next
        case False
        with 2 have "\<exists>l\<in>set (str_splitlines r). is_title_line l" by simp
        moreover have "length r < length s" using s by simp
        ultimately have IH: "\<exists>l\<in>set (str_splitlines ?fr). is_title_line l"
          using less.hyps by blast
        show ?thesis
        proof (cases "b = 13 \<and> ?fr \<noteq> [] \<and> hd ?fr = 10")
          case True
          then obtain x where x: "?fr = 10 # x" by (cases ?fr) auto
          have "splitlines_from [] (10 # x) = [] # splitlines_from [] x"
            by (rule splitlines_from_break) (simp_all add: is_linebreak_LF)
          with IH x have "\<exists>l\<in>set (str_splitlines x). is_title_line l"
            using is_title_line_Nil by (auto simp: str_splitlines_def)
          with flines True x show ?thesis by simp
        next
          case False
          with flines IH show ?thesis by auto
        qed
      qed
    qed
  qed
qed

lemma TWIST_no_linebreak:
  "\<forall>b. is_linebreak b \<longrightarrow> b \<notin> set TWIST1" "\<forall>b. is_linebreak b \<longrightarrow> b \<notin> set TWIST2"
  "\<forall>b. is_linebreak b \<longrightarrow> b \<notin> set TWIST3" "\<forall>b. is_linebreak b \<longrightarrow> b \<notin> set TWIST4"
  by (auto simp: TWIST1_def TWIST2_def TWIST3_def TWIST4_def ustr_def is_linebreak_def)

lemma strip_markers_keeps_title:
  assumes "\<exists>l\<in>set (str_splitlines s). is_title_line l"
  shows "\<exists>l\<in>set (str_splitlines (strip_markers s)). is_title_line l"
proof -
  have 1: "\<exists>l\<in>set (str_splitlines (str_replace TWIST1 [] s)). is_title_line l"
    using token_TWIST(1) TWIST_no_linebreak(1) assms by (rule str_replace_keeps_title)
  have 2: "\<exists>l\<in>set (str_splitlines (str_replace TWIST2 [] (str_replace TWIST1 [] s))). is_title_line l"
    using token_TWIST(2) TWIST_no_linebreak(2) 1 by (rule str_replace_keeps_title)
  have 3: "\<exists>l\<in>set (str_splitlines (str_replace TWIST3 [] (str_replace TWIST2 []
             (str_replace TWIST1 [] s)))). is_title_line l"
    using token_TWIST(3) TWIST_no_linebreak(3) 2 by (rule str_replace_keeps_title)
  have 4: "\<exists>l\<in>set (str_splitlines (str_replace TWIST4 [] (str_replace TWIST3 [] (str_replace TWIST2 []
             (str_replace TWIST1 [] s))))). is_title_line l"
    using token_TWIST(4) TWIST_no_linebreak(4) 3 by (rule str_replace_keeps_title)
  then show ?thesis unfolding strip_markers_def by (simp only: title_line_str_strip)
qed

section \<open>A reply with a title line and no story line\<close>

lemma parse_line_title_other:
  "\<not> is_title_line ln \<Longrightarrow> parse_line st ln = Inr st' \<Longrightarrow> st_title st' = st_title st"
  by (auto simp: parse_line_def split: if_splits)

lemma parse_lines_title:
  assumes "parse_lines st lns = Inr st'"
  shows "if \<exists>ln\<in>set lns. is_title_line ln
         then \<exists>ln\<in>set lns. is_title_line ln \<and>
                st_title st' = str_strip (tl (dropWhile (\<lambda>c. c \<noteq> 58) ln))
         else st_title st' = st_title st"
  using assms
proof (induction lns arbitrary: st)
  case Nil
  then show ?case by simp
next
  case (Cons ln lns)
  obtain st1 where st1: "parse_line st ln = Inr st1" using parse_line_total by blast
  with Cons.prems have rest: "parse_lines st1 lns = Inr st'" by simp
  note IH = Cons.IH[OF rest]
  show ?case
  proof (cases "\<exists>ln\<in>set lns. is_title_line ln")
    case True
    with IH show ?thesis by auto
  next
    case False
    with IH have eq: "st_title st' = st_title st1" by simp
    show ?thesis
    proof (cases "is_title_line ln")
      case True
      with st1 have "st_title st1 = str_strip (tl (dropWhile (\<lambda>c. c \<noteq> 58) ln))"
        by (auto simp: parse_line_title)
      with True eq show ?thesis by auto
    next
      case F: False
      from F st1 have "st_title st1 = st_title st" by (rule parse_line_title_other)
      with F False eq show ?thesis by simp
    qed
  qed
qed

lemma parse_title_line:
  assumes "\<exists>ln\<in>set (str_splitlines s). is_title_line ln" "parse_gemini_output s = Inr (t, r)"
  shows "\<exists>ln\<in>set (str_splitlines s). is_title_line ln \<and> t = str_strip (tl (dropWhile (\<lambda>c. c \<noteq> 58) ln))"
proof -
  obtain st' where st': "parse_lines \<lparr>st_title = [], st_story = [], st_mode = None\<rparr> (str_splitlines s) = Inr st'"
    using parse_lines_total by blast
  with assms(2) have "t = st_title st'" by (simp add: parse_gemini_output_def)
  with parse_lines_title[OF st'] assms(1) show ?thesis by simp
qed

lemma str_splitlines_Nil: "str_splitlines [] = []"
  by (simp add: str_splitlines_def)

text \<open>
  Claim C10, as amended. For every model output with a line whose trimmed lower-case form
  starts with \<open>title:\<close> and no line starting with \<open>story:\<close>, Generate and Revise return
  story_raw equal to the whole output trimmed; the title field is the trimmed remainder
  after the first colon of a title line of story_raw, so that line is still in story_raw;
  and story_clean, which is \<open>strip_markers\<close> of story_raw, still has a line whose trimmed
  lower-case form starts with \<open>title:\<close>.
\<close>

theorem title_line_fallback:
  assumes "\<exists>ln\<in>set (str_splitlines s). is_title_line ln"
    and "\<forall>ln\<in>set (str_splitlines s). \<not> is_story_line ln"
  shows "\<exists>t. (\<exists>ln\<in>set (str_splitlines (str_strip s)).
                is_title_line ln \<and> t = str_strip (tl (dropWhile (\<lambda>c. c \<noteq> 58) ln))) \<and>
             (\<exists>ln\<in>set (str_splitlines (strip_markers (str_strip s))). is_title_line ln) \<and>
             (model (StoryPrompt (inspiration greq) (tone greq)) = Replies (Some s) \<longrightarrow>
                generate model greq =
                  \<lparr>status_code = 200,
                   content = [(''title'', t), (''story_raw'', str_strip s),
                              (''story_clean'', strip_markers (str_strip s))]\<rparr>) \<and>
             (model (RevisionPrompt (original_story rreq) (feedback rreq)) = Replies (Some s) \<longrightarrow>
                revise model rreq =
                  \<lparr>status_code = 200,
                   content = [(''title'', t), (''story_raw'', str_strip s),
                              (''story_clean'', strip_markers (str_strip s))]\<rparr>)"
proof -
  from assms(1) have tl: "\<exists>ln\<in>set (str_splitlines (str_strip s)). is_title_line ln"
    by (simp only: title_line_str_strip)
  then have ne: "str_strip s \<noteq> []" using str_splitlines_Nil by fastforce
  from assms(2) have "\<forall>ln\<in>set (str_splitlines (str_strip s)). \<not> is_story_line ln"
    using story_line_str_strip[of s] by blast
  then obtain t where t: "parse_gemini_output (str_strip s) = Inr (t, [])"
    using parse_no_story_line by blast
  have 1: "\<exists>ln\<in>set (str_splitlines (str_strip s)).
             is_title_line ln \<and> t = str_strip (tl (dropWhile (\<lambda>c. c \<noteq> 58) ln))"
    using tl t by (rule parse_title_line)
  have 2: "\<exists>ln\<in>set (str_splitlines (strip_markers (str_strip s))). is_title_line ln"
    using tl by (rule strip_markers_keeps_title)
  have 3: "generate model greq =
          \<lparr>status_code = 200,
           content = [(''title'', t), (''story_raw'', str_strip s),
                      (''story_clean'', strip_markers (str_strip s))]\<rparr>"
    if "model (StoryPrompt (inspiration greq) (tone greq)) = Replies (Some s)"
  proof -
    from that have "call_gemini model (StoryPrompt (inspiration greq) (tone greq)) = Inr (str_strip s)"
      by (simp add: call_gemini_def)
    from generate_success[OF this ne t] show ?thesis by simp
  qed
  have 4: "revise model rreq =
          \<lparr>status_code = 200,
           content = [(''title'', t), (''story_raw'', str_strip s),
                      (''story_clean'', strip_markers (str_strip s))]\<rparr>"
    if "model (RevisionPrompt (original_story rreq) (feedback rreq)) = Replies (Some s)"
  proof -
    from that have "call_gemini model (RevisionPrompt (original_story rreq) (feedback rreq)) = Inr (str_strip s)"
      by (simp add: call_gemini_def)
    from revise_success[OF this ne t] show ?thesis by simp
  qed
  from 1 2 3 4 show ?thesis by blast
qed

text \<open>
  The line of story_clean need not be the line that gave the title: marker tokens are
  removed from it as from the rest. For the output \<open>Title: [TWIST1]A\<close> the title is
  \<open>[TWIST1]A\<close> and story_clean is the single line \<open>Title: A\<close>. The output is also
  trimmed before it becomes story_raw.
\<close>

theorem title_line_fallback_counterexample:
  "generate (\<lambda>p. Replies (Some (ustr ''Title: [TWIST1]A'')))
       \<lparr>inspiration = ustr ''a fox'', tone = ustr ''neutral''\<rparr> =
     \<lparr>status_code = 200,
      content = [(''title'', ustr ''[TWIST1]A''), (''story_raw'', ustr ''Title: [TWIST1]A''),
                 (''story_clean'', ustr ''Title: A'')]\<rparr> \<and>
   str_splitlines (ustr ''Title: A'') = [ustr ''Title: A''] \<and>
   ustr ''Title: A'' \<noteq> ustr ''Title: [TWIST1]A'' \<and>
   generate (\<lambda>p. Replies (Some (ustr ''Title: A'' @ [10])))
       \<lparr>inspiration = ustr ''a fox'', tone = ustr ''neutral''\<rparr> =
     \<lparr>status_code = 200,
      content = [(''title'', ustr ''A''), (''story_raw'', ustr ''Title: A''),
                 (''story_clean'', ustr ''Title: A'')]\<rparr>"
  by (simp add: generate_def Let_def call_gemini_def parse_gemini_output_def str_splitlines_def parse_line_def
        list_index_def str_split1_def is_title_line_def is_story_line_def str_startswith_def
        str_lower_def lower_cp_def is_linebreak_def strip_markers_def TWIST1_def TWIST2_def TWIST3_def
        TWIST4_def ustr_def str_strip_def isspace_def)

theorem title_line_fallback_witness:
  "generate (\<lambda>p. Replies (Some (ustr ''Title: The Fox'' @ [10] @ ustr ''[TWIST1] A fox ran.'' @ [10])))
       \<lparr>inspiration = ustr ''a fox'', tone = ustr ''neutral''\<rparr> =
     \<lparr>status_code = 200,
      content = [(''title'', ustr ''The Fox''),
                 (''story_raw'', ustr ''Title: The Fox'' @ [10] @ ustr ''[TWIST1] A fox ran.''),
                 (''story_clean'', ustr ''Title: The Fox'' @ [10] @ ustr '' A fox ran.'')]\<rparr>"
proof -
  let ?s = "ustr ''Title: The Fox'' @ [10] @ ustr ''[TWIST1] A fox ran.'' @ [10]"
  have 1: "\<exists>ln\<in>set (str_splitlines ?s). is_title_line ln"
    by (simp add: str_splitlines_def is_title_line_def str_startswith_def str_lower_def
          lower_cp_def is_linebreak_def ustr_def str_strip_def isspace_def)
  have 2: "\<forall>ln\<in>set (str_splitlines ?s). \<not> is_story_line ln"
    by (simp add: str_splitlines_def is_story_line_def str_startswith_def str_lower_def
          lower_cp_def is_linebreak_def ustr_def str_strip_def isspace_def)
  have 3: "str_strip ?s = ustr ''Title: The Fox'' @ [10] @ ustr ''[TWIST1] A fox ran.''"
    by (simp add: ustr_def str_strip_def isspace_def)
  have 4: "strip_markers (ustr ''Title: The Fox'' @ [10] @ ustr ''[TWIST1] A fox ran.'') =
             ustr ''Title: The Fox'' @ [10] @ ustr '' A fox ran.''"
    by (simp add: strip_markers_def TWIST1_def TWIST2_def TWIST3_def TWIST4_def ustr_def str_strip_def
          isspace_def)
  have 5: "str_splitlines (ustr ''Title: The Fox'' @ [10] @ ustr ''[TWIST1] A fox ran.'') =
             [ustr ''Title: The Fox'', ustr ''[TWIST1] A fox ran.'']"
    by (simp add: str_splitlines_def is_linebreak_def ustr_def)
  have 6: "\<not> is_title_line (ustr ''[TWIST1] A fox ran.'')"
    by (simp add: is_title_line_def str_startswith_def str_lower_def lower_cp_def ustr_def
          str_strip_def isspace_def)
  have 7: "str_strip (tl (dropWhile (\<lambda>c. c \<noteq> 58) (ustr ''Title: The Fox''))) = ustr ''The Fox''"
    by (simp add: ustr_def str_strip_def isspace_def)
  from title_line_fallback[OF 1 2,
         of "\<lambda>p. Replies (Some ?s)" "\<lparr>inspiration = ustr ''a fox'', tone = ustr ''neutral''\<rparr>"
            "\<lparr>feedback = ustr ''more'', original_story = ustr ''old''\<rparr>"]
  show ?thesis unfolding 3 4 5 using 6 7 by auto
qed

end
